theory Spec2Isabelle
  imports Main "HOL-Library.Sublist"
begin

section \<open>JavaScript values used by \<open>src/main.ts\<close>\<close>

text \<open>
  Strings are character lists. A value that may be \<open>undefined\<close> (an array read past the
  end) is a \<open>string option\<close>, with \<open>None\<close> for \<open>undefined\<close>.
\<close>

datatype js_error = TypeError | ExecError

text \<open>\<open>row[i]\<close>: reading an array past its end gives \<open>undefined\<close>.\<close>

definition nth_opt :: "'a list \<Rightarrow> nat \<Rightarrow> 'a option" where
  "nth_opt xs i = (if i < length xs then Some (xs ! i) else None)"

text \<open>
  \<open>undefined\<close> used as a property key or inside a template literal is the text
  \<open>undefined\<close>; \<open>Array.prototype.join\<close> renders it as the empty string.
\<close>

definition to_string :: "string option \<Rightarrow> string" where
  "to_string v = (case v of None \<Rightarrow> ''undefined'' | Some s \<Rightarrow> s)"

definition join_item :: "string option \<Rightarrow> string" where
  "join_item v = (case v of None \<Rightarrow> [] | Some s \<Rightarrow> s)"

text \<open>\<open>Array.prototype.join\<close> on an array of strings.\<close>

fun js_join :: "'a list \<Rightarrow> 'a list list \<Rightarrow> 'a list" where
  "js_join sep [] = []"
| "js_join sep [x] = x"
| "js_join sep (x # y # ys) = x @ sep @ js_join sep (y # ys)"

text \<open>
  \<open>String.prototype.split\<close> with a string separator: the text is scanned from the left,
  every occurrence of the separator closes the current chunk and the scan resumes after
  it. \<open>split_from sep acc s\<close> has read the chunk \<open>acc\<close> and still has \<open>s\<close> to read.
  With the empty separator the string is cut into its characters.
\<close>

function split_from :: "'a list \<Rightarrow> 'a list \<Rightarrow> 'a list \<Rightarrow> 'a list list" where
  "split_from sep acc [] = [acc]"
| "split_from sep acc (c # cs) =
     (if sep \<noteq> [] \<and> prefix sep (c # cs)
      then acc # split_from sep [] (drop (length sep) (c # cs))
      else split_from sep (acc @ [c]) cs)"
  by pat_completeness auto
termination
  by (relation "measure (\<lambda>(sep, acc, s). length s)") auto

definition js_split :: "'a list \<Rightarrow> 'a list \<Rightarrow> 'a list list" where
  "js_split s sep = (if sep = [] then map (\<lambda>c. [c]) s else split_from sep [] s)"

text \<open>\<open>Array.prototype.first\<close> of the host: the first element or \<open>undefined\<close>.\<close>

definition first :: "'a list \<Rightarrow> 'a option" where
  "first xs = (case xs of [] \<Rightarrow> None | x # _ \<Rightarrow> Some x)"

definition endsWith :: "string \<Rightarrow> string \<Rightarrow> bool" where
  "endsWith s suf = suffix suf s"

subsection \<open>Plain objects used as dictionaries\<close>

text \<open>
  \<open>annotationData\<close> and \<open>finalData\<close> are object literals \<open>{}\<close> indexed by arbitrary
  strings. An object is the list of its own properties in creation order. Reading a
  property that is not an own property falls through to \<open>Object.prototype\<close>, whose
  members are all truthy and none of which is an array. Assigning to \<open>__proto__\<close> runs
  the inherited setter and creates no own property.
\<close>

type_synonym 'v js_object = "(string \<times> 'v) list"

definition object_prototype_names :: "string list" where
  "object_prototype_names =
     [''constructor'', ''__defineGetter__'', ''__defineSetter__'', ''hasOwnProperty'',
      ''__lookupGetter__'', ''__lookupSetter__'', ''isPrototypeOf'',
      ''propertyIsEnumerable'', ''toString'', ''valueOf'', ''__proto__'',
      ''toLocaleString'']"

datatype 'v property = Own 'v | Inherited | Absent

definition js_get :: "'v js_object \<Rightarrow> string \<Rightarrow> 'v property" where
  "js_get obj k =
     (case map_of obj k of
        Some v \<Rightarrow> Own v
      | None \<Rightarrow> if k \<in> set object_prototype_names then Inherited else Absent)"

fun put :: "string \<Rightarrow> 'v \<Rightarrow> 'v js_object \<Rightarrow> 'v js_object" where
  "put k v [] = [(k, v)]"
| "put k v (p # ps) = (if fst p = k then (k, v) # ps else p # put k v ps)"

definition js_set :: "'v js_object \<Rightarrow> string \<Rightarrow> 'v \<Rightarrow> 'v js_object" where
  "js_set obj k v = (if k = ''__proto__'' then obj else put k v obj)"

text \<open>
  Own property order (\<open>Object.keys\<close>, \<open>Object.entries\<close>): the keys that are array
  indices (canonical decimal numerals below \<open>2^32 - 1\<close>) come first in ascending numeric
  order, the other keys follow in creation order.
\<close>

definition is_digit :: "char \<Rightarrow> bool" where
  "is_digit c = (c \<in> set ''0123456789'')"

definition digit_value :: "char \<Rightarrow> int" where
  "digit_value c = of_char c - 48"

definition decimal_value :: "string \<Rightarrow> int" where
  "decimal_value s = foldl (\<lambda>n c. 10 * n + digit_value c) 0 s"

definition is_array_index :: "string \<Rightarrow> bool" where
  "is_array_index s =
     (s \<noteq> [] \<and> list_all is_digit s \<and> (s = ''0'' \<or> hd s \<noteq> CHR ''0'')
      \<and> decimal_value s < 4294967295)"

definition property_order :: "string list \<Rightarrow> string list" where
  "property_order ks =
     sort_key decimal_value (filter is_array_index ks)
     @ filter (\<lambda>k. \<not> is_array_index k) ks"

definition entries :: "'v js_object \<Rightarrow> (string \<times> 'v) list" where
  "entries obj =
     sort_key (\<lambda>p. decimal_value (fst p)) (filter (\<lambda>p. is_array_index (fst p)) obj)
     @ filter (\<lambda>p. \<not> is_array_index (fst p)) obj"

definition keys :: "'v js_object \<Rightarrow> string list" where
  "keys obj = map fst (entries obj)"

section \<open>Row parser (lines 121-131 and 153-156)\<close>

definition row_separator :: string where
  "row_separator = ''@@@''"

definition field_separator :: string where
  "field_separator = ''|||''"

definition raw_rows :: "string \<Rightarrow> string list" where
  "raw_rows stdout = filter (\<lambda>a. a \<noteq> []) (js_split stdout row_separator)"

definition parse_rows :: "string \<Rightarrow> string list list" where
  "parse_rows stdout = map (\<lambda>row. js_split row field_separator) (raw_rows stdout)"

section \<open>Grouping annotations by book (lines 125-141)\<close>

record HighlightData =
  annotationId :: "string option"
  selectedText :: "string option"

definition highlight_of :: "string list \<Rightarrow> HighlightData" where
  "highlight_of row = \<lparr>annotationId = nth_opt row 1, selectedText = nth_opt row 2\<rparr>"

definition row_key :: "string list \<Rightarrow> string" where
  "row_key row = to_string (nth_opt row 0)"

text \<open>
  One step of the \<open>reduce\<close>: the sequence is created when \<open>acc[row[0]]\<close> is falsy, then
  \<open>push\<close> is called on \<open>acc[row[0]]\<close>. An inherited member is truthy and has no \<open>push\<close>,
  so the call throws.
\<close>

definition group_step ::
  "HighlightData list js_object \<Rightarrow> string list \<Rightarrow> js_error + HighlightData list js_object"
where
  "group_step acc row =
     (let k = row_key row;
          acc1 = (case js_get acc k of Absent \<Rightarrow> js_set acc k [] | _ \<Rightarrow> acc)
      in case js_get acc1 k of
           Own hs \<Rightarrow> Inr (js_set acc1 k (hs @ [highlight_of row]))
         | _ \<Rightarrow> Inl TypeError)"

fun reduce_rows ::
  "HighlightData list js_object \<Rightarrow> string list list \<Rightarrow> js_error + HighlightData list js_object"
where
  "reduce_rows acc [] = Inr acc"
| "reduce_rows acc (row # rows) =
     (case group_step acc row of
        Inl e \<Rightarrow> Inl e
      | Inr acc' \<Rightarrow> reduce_rows acc' rows)"

definition annotationData ::
  "string list list \<Rightarrow> js_error + HighlightData list js_object" where
  "annotationData rows = reduce_rows [] rows"

section \<open>Catalog query and join (lines 143-179)\<close>

definition uniqueBookIds :: "HighlightData list js_object \<Rightarrow> string list" where
  "uniqueBookIds ad = map (\<lambda>a. [CHR 0x27] @ a @ [CHR 0x27]) (keys ad)"

definition booksDataSelectQuery :: "HighlightData list js_object \<Rightarrow> string" where
  "booksDataSelectQuery ad =
     ''SELECT ZASSETID,ZAUTHOR,ZTITLE from ZBKLIBRARYASSET where ZASSETID in (''
     @ js_join '','' (uniqueBookIds ad) @ '')''"

text \<open>
  The \<open>highlights\<close> field holds whatever \<open>annotationData[bookId]\<close> evaluates to: an array
  of highlights, or a member of \<open>Object.prototype\<close>.
\<close>

datatype highlights_value = Arr "HighlightData list" | NotArr

record SyncedBook =
  bookId :: "string option"
  authorName :: "string option"
  bookTitle :: "string option"
  highlights :: highlights_value

definition synced_book :: "string list \<Rightarrow> highlights_value \<Rightarrow> SyncedBook" where
  "synced_book bookData hv =
     \<lparr>bookId = nth_opt bookData 0, authorName = nth_opt bookData 1,
      bookTitle = nth_opt bookData 2, highlights = hv\<rparr>"

definition join_step ::
  "HighlightData list js_object \<Rightarrow> SyncedBook js_object \<Rightarrow> string list \<Rightarrow> SyncedBook js_object"
where
  "join_step ad fd bookData =
     (let k = row_key bookData
      in case js_get ad k of
           Absent \<Rightarrow> fd
         | Own hs \<Rightarrow> js_set fd k (synced_book bookData (Arr hs))
         | Inherited \<Rightarrow> js_set fd k (synced_book bookData NotArr))"

definition finalData ::
  "HighlightData list js_object \<Rightarrow> string list list \<Rightarrow> SyncedBook js_object" where
  "finalData ad booksData = foldl (join_step ad) [] booksData"

section \<open>Document renderer (lines 190-200)\<close>

definition highlight_separator :: string where
  "highlight_separator = ''\<newline>\<newline>---\<newline>''"

definition document_path :: "string \<Rightarrow> SyncedBook \<Rightarrow> string" where
  "document_path folder book = folder @ ''/'' @ to_string (bookTitle book) @ ''.md''"

definition document_body :: "SyncedBook \<Rightarrow> js_error + string" where
  "document_body book =
     (case highlights book of
        NotArr \<Rightarrow> Inl TypeError
      | Arr hs \<Rightarrow>
          Inr (''## Metadata\<newline>- Author: '' @ to_string (authorName book)
               @ ''\<newline>- [Apple Books Link](ibooks://assetid/'' @ to_string (bookId book)
               @ '')\<newline>\<newline>## Highlights\<newline>''
               @ js_join highlight_separator (map (\<lambda>h. join_item (selectedText h)) hs)))"

section \<open>External collaborators\<close>

text \<open>
  The host of the plugin: the environment variable \<open>HOME\<close>, \<open>path.join\<close>,
  \<open>fs.readdir\<close> (\<open>None\<close> when the promise is rejected) and the promisified \<open>exec\<close>
  (\<open>None\<close> when the promise is rejected, otherwise the standard output). They are
  parameters of the model.
\<close>

record host =
  HOME :: "string option"
  path_join :: "string \<Rightarrow> string \<Rightarrow> string"
  readdir :: "string \<Rightarrow> string list option"
  exec :: "string \<Rightarrow> string option"

record AppleBooksPluginSettings =
  highlightsFolder :: string
  syncOnStartup :: bool

text \<open>
  Modelled from the spec: the vault/document store of the host application, which is not
  part of \<open>src/\<close>. The spec lists its capabilities: query the abstract file at a path,
  delete a file or folder recursively, create a folder, create a file with text content
  at a path. A vault is the list of its folder paths and the list of its files, each a
  path with its content; a path lies inside a folder when it extends the folder's path
  by \<open>/\<close> and a name.
\<close>

record vault_state =
  folders :: "string list"
  files :: "(string \<times> string) list"

definition inside :: "string \<Rightarrow> string \<Rightarrow> bool" where
  "inside folder p = prefix (folder @ ''/'') p"

definition at_or_inside :: "string \<Rightarrow> string \<Rightarrow> bool" where
  "at_or_inside folder p = (p = folder \<or> inside folder p)"

text \<open>
  Modelled from the spec: the vault's query of the abstract file at a path. A path names
  something when it is a folder or a file of the vault, or when the vault holds
  something inside it.
\<close>

definition getAbstractFileByPath :: "vault_state \<Rightarrow> string \<Rightarrow> bool" where
  "getAbstractFileByPath v p =
     list_ex (at_or_inside p) (folders v @ map fst (files v))"

text \<open>Modelled from the spec: the vault's recursive deletion of a file or folder.\<close>

definition vault_delete :: "vault_state \<Rightarrow> string \<Rightarrow> vault_state" where
  "vault_delete v p =
     \<lparr>folders = filter (\<lambda>d. \<not> at_or_inside p d) (folders v),
      files = filter (\<lambda>e. \<not> at_or_inside p (fst e)) (files v)\<rparr>"

text \<open>Modelled from the spec: the vault's creation of a folder.\<close>

definition createFolder :: "vault_state \<Rightarrow> string \<Rightarrow> vault_state" where
  "createFolder v p = v\<lparr>folders := folders v @ [p]\<rparr>"

text \<open>
  Modelled from the spec: the vault's creation of a file with text content at a path.
  The spec has two documents with one path overwrite one another, so the content
  written last is the one stored.
\<close>

definition vault_create :: "vault_state \<Rightarrow> string \<Rightarrow> string \<Rightarrow> vault_state" where
  "vault_create v p data = v\<lparr>files := put p data (files v)\<rparr>"

text \<open>
  What a run can be observed to do: the vault it leaves, the notices it shows and the
  commands it has passed to \<open>exec\<close>, both in order.
\<close>

record world =
  vault :: vault_state
  notices :: "string list"
  commands :: "string list"

text \<open>
  How a call ends: at one of the two early \<open>return\<close> statements, at the end of the
  function, or with an exception.
\<close>

datatype outcome = NotFound | Finished | Threw js_error

section \<open>\<open>syncHighlights\<close> (lines 77-204)\<close>

definition APPLE_BOOKS_DATA_FOLDER_ABSOLUTE_PATH :: "host \<Rightarrow> string" where
  "APPLE_BOOKS_DATA_FOLDER_ABSOLUTE_PATH h =
     to_string (HOME h) @ ''/Library/Containers/com.apple.iBooksX/Data/Documents/''"

definition ANNOTATION_DB_FOLDER_ABSOLUTE_PATH :: "host \<Rightarrow> string" where
  "ANNOTATION_DB_FOLDER_ABSOLUTE_PATH h =
     path_join h (APPLE_BOOKS_DATA_FOLDER_ABSOLUTE_PATH h) ''AEAnnotation''"

definition BOOKS_DB_FOLDER_ABSOLUTE_PATH :: "host \<Rightarrow> string" where
  "BOOKS_DB_FOLDER_ABSOLUTE_PATH h =
     path_join h (APPLE_BOOKS_DATA_FOLDER_ABSOLUTE_PATH h) ''BKLibrary''"

text \<open>\<open>fs.readdir(dir).catch(() => [])\<close>: a rejected listing is the empty listing.\<close>

definition folder_files :: "host \<Rightarrow> string \<Rightarrow> string list" where
  "folder_files h dir = (case readdir h dir of None \<Rightarrow> [] | Some fs \<Rightarrow> fs)"

definition db_file_name :: "host \<Rightarrow> string \<Rightarrow> string option" where
  "db_file_name h dir =
     first (filter (\<lambda>fileName. endsWith fileName ''.sqlite'') (folder_files h dir))"

definition annotationDataSelectQuery :: string where
  "annotationDataSelectQuery =
     ''SELECT ZANNOTATIONASSETID,ZANNOTATIONUUID,ZANNOTATIONSELECTEDTEXT from ZAEANNOTATION where ZANNOTATIONDELETED = 0 AND ZANNOTATIONSELECTEDTEXT NOT NULL;''"

definition separatorConfig :: string where
  "separatorConfig = ''-cmd '' @ [CHR 0x22] @ ''.separator ||| @@@'' @ [CHR 0x22]"

definition sqlite_command :: "string \<Rightarrow> string \<Rightarrow> string" where
  "sqlite_command db query =
     ''sqlite3 --readonly '' @ separatorConfig @ '' '' @ db @ '' ''
     @ [CHR 0x22] @ query @ [CHR 0x22]"

definition notice :: "string \<Rightarrow> world \<Rightarrow> world" where
  "notice msg w = w\<lparr>notices := notices w @ [msg]\<rparr>"

definition run_command :: "string \<Rightarrow> world \<Rightarrow> world" where
  "run_command cmd w = w\<lparr>commands := commands w @ [cmd]\<rparr>"

text \<open>
  The loop over \<open>Object.entries(finalData)\<close>: the body of a document is evaluated before
  \<open>create\<close> is called, and an exception leaves the documents created so far.
\<close>

fun create_documents ::
  "string \<Rightarrow> vault_state \<Rightarrow> (string \<times> SyncedBook) list \<Rightarrow> js_error option \<times> vault_state"
where
  "create_documents folder v [] = (None, v)"
| "create_documents folder v (e # es) =
     (case document_body (snd e) of
        Inl err \<Rightarrow> (Some err, v)
      | Inr body \<Rightarrow>
          create_documents folder (vault_create v (document_path folder (snd e)) body) es)"

text \<open>Lines 181-188: the destination folder is deleted when it exists, then created.\<close>

definition replace_folder :: "string \<Rightarrow> vault_state \<Rightarrow> vault_state" where
  "replace_folder folder v =
     createFolder (if getAbstractFileByPath v folder then vault_delete v folder else v) folder"

definition write_phase ::
  "AppleBooksPluginSettings \<Rightarrow> SyncedBook js_object \<Rightarrow> world \<Rightarrow> outcome \<times> world" where
  "write_phase settings fd w =
     (case create_documents (highlightsFolder settings)
             (replace_folder (highlightsFolder settings) (vault w)) (entries fd) of
        (Some err, v) \<Rightarrow> (Threw err, w\<lparr>vault := v\<rparr>)
      | (None, v) \<Rightarrow>
          (Finished,
           notice ''Successfully finished Apple Books Highlight Sync'' (w\<lparr>vault := v\<rparr>)))"

text \<open>Lines 114-201, once both database files are known.\<close>

definition sync_databases ::
  "host \<Rightarrow> AppleBooksPluginSettings \<Rightarrow> string \<Rightarrow> string \<Rightarrow> world \<Rightarrow> outcome \<times> world"
where
  "sync_databases h settings annotationDB booksDB w =
     (let cmd1 = sqlite_command annotationDB annotationDataSelectQuery;
          w1 = run_command cmd1 w
      in case exec h cmd1 of
           None \<Rightarrow> (Threw ExecError, w1)
         | Some stdout1 \<Rightarrow>
             (case annotationData (parse_rows stdout1) of
                Inl err \<Rightarrow> (Threw err, w1)
              | Inr ad \<Rightarrow>
                  (let cmd2 = sqlite_command booksDB (booksDataSelectQuery ad);
                       w2 = run_command cmd2 w1
                   in case exec h cmd2 of
                        None \<Rightarrow> (Threw ExecError, w2)
                      | Some stdout2 \<Rightarrow>
                          write_phase settings (finalData ad (parse_rows stdout2)) w2)))"

definition syncHighlights ::
  "host \<Rightarrow> AppleBooksPluginSettings \<Rightarrow> world \<Rightarrow> outcome \<times> world" where
  "syncHighlights h settings w =
     (case db_file_name h (ANNOTATION_DB_FOLDER_ABSOLUTE_PATH h) of
        None \<Rightarrow>
          (NotFound, notice ''Apple Books Annotation Database not found, cannot sync.'' w)
      | Some annotationDBFileName \<Rightarrow>
          (case db_file_name h (BOOKS_DB_FOLDER_ABSOLUTE_PATH h) of
             None \<Rightarrow>
               (NotFound, notice ''Apple Books Books Database not found, cannot sync.'' w)
           | Some booksDBFileName \<Rightarrow>
               sync_databases h settings
                 (path_join h (ANNOTATION_DB_FOLDER_ABSOLUTE_PATH h) annotationDBFileName)
                 (path_join h (BOOKS_DB_FOLDER_ABSOLUTE_PATH h) booksDBFileName) w))"

section \<open>Example runs\<close>

text \<open>
  The files of a container that end in the database extension, and a host, settings and
  a vault to run the function on.
\<close>

definition database_files :: "host \<Rightarrow> string \<Rightarrow> string list" where
  "database_files h dir =
     filter (\<lambda>fileName. endsWith fileName ''.sqlite'') (folder_files h dir)"

definition unlistable :: "string \<Rightarrow> string list option" where
  "unlistable dir = None"

definition failing_exec :: "string \<Rightarrow> string option" where
  "failing_exec cmd = None"

definition slash_join :: "string \<Rightarrow> string \<Rightarrow> string" where
  "slash_join a b = (if a \<noteq> [] \<and> last a = CHR ''/'' then a @ b else a @ ''/'' @ b)"

definition host_without_containers :: host where
  "host_without_containers =
     \<lparr>HOME = Some ''/Users/reader'', path_join = slash_join, readdir = unlistable,
      exec = failing_exec\<rparr>"

definition default_settings :: AppleBooksPluginSettings where
  "default_settings =
     \<lparr>highlightsFolder = ''Apple Books Highlights'', syncOnStartup = False\<rparr>"

definition vault_with_notes :: vault_state where
  "vault_with_notes =
     \<lparr>folders = [''Apple Books Highlights''],
      files = [(''Apple Books Highlights/Old.md'', ''stale''), (''Inbox.md'', ''keep'')]\<rparr>"

definition world_with_notes :: world where
  "world_with_notes = \<lparr>vault = vault_with_notes, notices = [], commands = []\<rparr>"

definition one_database :: "string \<Rightarrow> string list option" where
  "one_database dir = Some [''notes.txt'', ''library.sqlite'']"

definition empty_output :: "string \<Rightarrow> string option" where
  "empty_output cmd = Some []"

definition host_without_annotations :: host where
  "host_without_annotations =
     \<lparr>HOME = Some ''/Users/reader'', path_join = slash_join, readdir = one_database,
      exec = empty_output\<rparr>"

text \<open>The scenario of the spec: two highlights of one book and its catalog row.\<close>


definition scenario_annotation_rows :: "string list list" where
  "scenario_annotation_rows =
     [[''B1'', ''A1'', ''Great quote''], [''B1'', ''A2'', ''Another line'']]"

definition scenario_catalog_rows :: "string list list" where
  "scenario_catalog_rows = [[''B1'', ''Jane Doe'', ''My Book'']]"

definition scenario_highlights :: "HighlightData list" where
  "scenario_highlights =
     [\<lparr>annotationId = Some ''A1'', selectedText = Some ''Great quote''\<rparr>,
      \<lparr>annotationId = Some ''A2'', selectedText = Some ''Another line''\<rparr>]"

definition scenario_book :: SyncedBook where
  "scenario_book =
     \<lparr>bookId = Some ''B1'', authorName = Some ''Jane Doe'', bookTitle = Some ''My Book'',
      highlights = Arr scenario_highlights\<rparr>"

text \<open>
  The serialisation the round trip is about: the fields of a row joined by the field
  separator, the rows joined by the row separator. \<open>ends_with c s\<close>: the text \<open>s\<close>
  is not empty and its last character is \<open>c\<close>.
\<close>


definition encode_rows :: "string list list \<Rightarrow> string" where
  "encode_rows m = js_join row_separator (map (js_join field_separator) m)"

definition ends_with :: "'a \<Rightarrow> 'a list \<Rightarrow> bool" where
  "ends_with c s = (s \<noteq> [] \<and> last s = c)"

text \<open>
  \<open>first_occurrences xs\<close>: the elements of \<open>xs\<close> without repetition, each at the
  place of its first occurrence. \<open>own_or_empty obj k\<close>: the sequence stored under the
  own property \<open>k\<close>, the empty one when there is none.
\<close>


fun first_occurrences :: "'a list \<Rightarrow> 'a list" where
  "first_occurrences [] = []"
| "first_occurrences (x # xs) = x # filter (\<lambda>y. y \<noteq> x) (first_occurrences xs)"

definition own_or_empty :: "'v list js_object \<Rightarrow> string \<Rightarrow> 'v list" where
  "own_or_empty obj k = (case map_of obj k of None \<Rightarrow> [] | Some vs \<Rightarrow> vs)"

text \<open>
  Two books with numeric identifiers, the catalog listing \<open>20\<close> before \<open>3\<close>, and a
  catalog that lists the book of the scenario twice.
\<close>

definition store_annotation_rows :: "string list list" where
  "store_annotation_rows = [[''20'', ''A1'', ''Later''], [''3'', ''A2'', ''Sooner'']]"

definition store_grouped :: "HighlightData list js_object" where
  "store_grouped =
     [(''20'', [\<lparr>annotationId = Some ''A1'', selectedText = Some ''Later''\<rparr>]),
      (''3'', [\<lparr>annotationId = Some ''A2'', selectedText = Some ''Sooner''\<rparr>])]"

definition store_catalog_rows :: "string list list" where
  "store_catalog_rows = [[''20'', ''Ann'', ''Twenty''], [''3'', ''Bob'', ''Three'']]"

definition repeated_catalog_rows :: "string list list" where
  "repeated_catalog_rows =
     [[''B1'', ''Jane Doe'', ''My Book''], [''B1'', ''J. Doe'', ''My Book, 2nd edition'']]"

text \<open>
  A host on which the scenario of the spec runs from the output of the two queries to
  the vault, the world the run leaves, and two books with one title.
\<close>

definition scenario_annotation_command :: string where
  "scenario_annotation_command =
     sqlite_command
       ''/Users/reader/Library/Containers/com.apple.iBooksX/Data/Documents/AEAnnotation/library.sqlite''
       annotationDataSelectQuery"

definition scenario_exec :: "string \<Rightarrow> string option" where
  "scenario_exec cmd =
     (if cmd = scenario_annotation_command
      then Some ''B1|||A1|||Great quote@@@B1|||A2|||Another line@@@''
      else Some ''B1|||Jane Doe|||My Book@@@'')"

definition host_with_one_book :: host where
  "host_with_one_book =
     \<lparr>HOME = Some ''/Users/reader'', path_join = slash_join, readdir = one_database,
      exec = scenario_exec\<rparr>"

definition vault_after_scenario :: vault_state where
  "vault_after_scenario =
     \<lparr>folders = [''Apple Books Highlights''],
      files =
        [(''Inbox.md'', ''keep''),
         (''Apple Books Highlights/My Book.md'',
          ''## Metadata\<newline>- Author: Jane Doe\<newline>- [Apple Books Link](ibooks://assetid/B1)\<newline>\<newline>## Highlights\<newline>Great quote\<newline>\<newline>---\<newline>Another line'')]\<rparr>"

definition empty_world :: world where
  "empty_world = \<lparr>vault = \<lparr>folders = [], files = []\<rparr>, notices = [], commands = []\<rparr>"

definition twin_books :: "SyncedBook js_object" where
  "twin_books =
     [(''B1'', \<lparr>bookId = Some ''B1'', authorName = Some ''Jane Doe'',
               bookTitle = Some ''Essays'',
               highlights = Arr [\<lparr>annotationId = Some ''A1'', selectedText = Some ''One''\<rparr>]\<rparr>),
      (''B2'', \<lparr>bookId = Some ''B2'', authorName = Some ''John Roe'',
               bookTitle = Some ''Essays'',
               highlights = Arr [\<lparr>annotationId = Some ''A2'', selectedText = Some ''Two''\<rparr>]\<rparr>)]"

text \<open>
  A host whose stores hold two books with one title: the output of the two queries, the
  grouped map of the first and the host itself.
\<close>

definition twin_annotation_output :: string where
  "twin_annotation_output = ''B1|||A1|||One@@@B2|||A2|||Two@@@''"

definition twin_catalog_output :: string where
  "twin_catalog_output = ''B1|||Jane Doe|||Essays@@@B2|||John Roe|||Essays@@@''"

definition twin_grouped :: "HighlightData list js_object" where
  "twin_grouped =
     [(''B1'', [\<lparr>annotationId = Some ''A1'', selectedText = Some ''One''\<rparr>]),
      (''B2'', [\<lparr>annotationId = Some ''A2'', selectedText = Some ''Two''\<rparr>])]"

definition twin_exec :: "string \<Rightarrow> string option" where
  "twin_exec cmd =
     (if cmd = scenario_annotation_command then Some twin_annotation_output
      else Some twin_catalog_output)"

definition host_with_twins :: host where
  "host_with_twins =
     \<lparr>HOME = Some ''/Users/reader'', path_join = slash_join, readdir = one_database,
      exec = twin_exec\<rparr>"

section \<open>Properties\<close>

subsection \<open>Source locator\<close>

lemma db_file_name_None: "db_file_name h d = None \<longleftrightarrow> database_files h d = []"
  by (simp add: db_file_name_def database_files_def first_def split: list.splits)

text \<open>
  C2. A container that cannot be listed has no database file. When either container has
  no file ending in \<open>.sqlite\<close>, the call returns at once with the one notice that names
  the missing store (the annotation store when both are missing); it has passed no
  command to \<open>exec\<close> and the vault is the one it started with.
\<close>

theorem missing_database_aborts:
  assumes "database_files h (ANNOTATION_DB_FOLDER_ABSOLUTE_PATH h) = []
           \<or> database_files h (BOOKS_DB_FOLDER_ABSOLUTE_PATH h) = []"
  shows "(readdir h (ANNOTATION_DB_FOLDER_ABSOLUTE_PATH h) = None
            \<longrightarrow> database_files h (ANNOTATION_DB_FOLDER_ABSOLUTE_PATH h) = [])
         \<and> (readdir h (BOOKS_DB_FOLDER_ABSOLUTE_PATH h) = None
            \<longrightarrow> database_files h (BOOKS_DB_FOLDER_ABSOLUTE_PATH h) = [])
         \<and> syncHighlights h st w =
             (NotFound,
              w\<lparr>notices := notices w @
                 [if database_files h (ANNOTATION_DB_FOLDER_ABSOLUTE_PATH h) = []
                  then ''Apple Books Annotation Database not found, cannot sync.''
                  else ''Apple Books Books Database not found, cannot sync.'']\<rparr>)
         \<and> vault (snd (syncHighlights h st w)) = vault w
         \<and> commands (snd (syncHighlights h st w)) = commands w"
proof -
  have listing: "readdir h d = None \<longrightarrow> database_files h d = []" for d
    by (simp add: database_files_def folder_files_def)
  have run: "syncHighlights h st w =
             (NotFound,
              w\<lparr>notices := notices w @
                 [if database_files h (ANNOTATION_DB_FOLDER_ABSOLUTE_PATH h) = []
                  then ''Apple Books Annotation Database not found, cannot sync.''
                  else ''Apple Books Books Database not found, cannot sync.'']\<rparr>)"
  proof (cases "database_files h (ANNOTATION_DB_FOLDER_ABSOLUTE_PATH h) = []")
    case True
    then have "db_file_name h (ANNOTATION_DB_FOLDER_ABSOLUTE_PATH h) = None"
      by (simp add: db_file_name_None)
    with True show ?thesis by (simp add: syncHighlights_def notice_def)
  next
    case False
    with assms have "db_file_name h (BOOKS_DB_FOLDER_ABSOLUTE_PATH h) = None"
      by (simp add: db_file_name_None)
    moreover from False obtain a
      where "db_file_name h (ANNOTATION_DB_FOLDER_ABSOLUTE_PATH h) = Some a"
      using db_file_name_None
      by (cases "db_file_name h (ANNOTATION_DB_FOLDER_ABSOLUTE_PATH h)") auto
    ultimately show ?thesis using False by (simp add: syncHighlights_def notice_def)
  qed
  show ?thesis using listing run by simp
qed

theorem missing_database_aborts_witness:
  "database_files host_without_containers
     (ANNOTATION_DB_FOLDER_ABSOLUTE_PATH host_without_containers) = []
   \<and> syncHighlights host_without_containers default_settings world_with_notes =
       (NotFound, world_with_notes\<lparr>notices :=
          [''Apple Books Annotation Database not found, cannot sync.'']\<rparr>)"
proof -
  have h: "database_files host_without_containers
             (ANNOTATION_DB_FOLDER_ABSOLUTE_PATH host_without_containers) = []"
    by (simp add: database_files_def folder_files_def host_without_containers_def
        unlistable_def)
  have n: "notices world_with_notes = []"
    by (simp add: world_with_notes_def)
  from missing_database_aborts [OF disjI1 [OF h], of default_settings world_with_notes]
  show ?thesis by (simp only: h n if_True append_Nil simp_thms)
qed

subsection \<open>An annotation store without annotations\<close>

lemma parse_rows_Nil: "parse_rows [] = []"
  by (simp add: parse_rows_def raw_rows_def js_split_def row_separator_def)

lemma empty_query:
  "booksDataSelectQuery [] =
     ''SELECT ZASSETID,ZAUTHOR,ZTITLE from ZBKLIBRARYASSET where ZASSETID in ()''"
  by (simp add: booksDataSelectQuery_def uniqueBookIds_def keys_def entries_def)

lemma replace_example:
  "replace_folder ''Apple Books Highlights'' vault_with_notes =
     \<lparr>folders = [''Apple Books Highlights''], files = [(''Inbox.md'', ''keep'')]\<rparr>"
  by (simp add: replace_folder_def getAbstractFileByPath_def vault_with_notes_def
      at_or_inside_def inside_def vault_delete_def createFolder_def)

text \<open>
  C9, as stated, fails. With both database files found and an annotation query that
  prints nothing, a query engine that accepts the empty list (SQLite does, and selects
  no row) lets the call go on: it ends normally, the destination folder has been deleted
  with the document it held and created again.
\<close>

theorem empty_annotation_result_counterexample:
  "db_file_name host_without_annotations
     (ANNOTATION_DB_FOLDER_ABSOLUTE_PATH host_without_annotations) = Some ''library.sqlite''
   \<and> db_file_name host_without_annotations
     (BOOKS_DB_FOLDER_ABSOLUTE_PATH host_without_annotations) = Some ''library.sqlite''
   \<and> exec host_without_annotations
       (sqlite_command (slash_join (ANNOTATION_DB_FOLDER_ABSOLUTE_PATH host_without_annotations)
          ''library.sqlite'') annotationDataSelectQuery) = Some []
   \<and> parse_rows [] = []
   \<and> fst (syncHighlights host_without_annotations default_settings world_with_notes) = Finished
   \<and> vault (snd (syncHighlights host_without_annotations default_settings world_with_notes)) =
       \<lparr>folders = [''Apple Books Highlights''], files = [(''Inbox.md'', ''keep'')]\<rparr>"
proof -
  have a: "db_file_name host_without_annotations d = Some ''library.sqlite''" for d
    by (simp add: db_file_name_def folder_files_def host_without_annotations_def
        one_database_def endsWith_def first_def suffix_def)
  have e: "exec host_without_annotations c = Some []" for c
    by (simp add: host_without_annotations_def empty_output_def)
  have s: "syncHighlights host_without_annotations default_settings world_with_notes =
           write_phase default_settings [] (run_command
             (sqlite_command (path_join host_without_annotations
                (BOOKS_DB_FOLDER_ABSOLUTE_PATH host_without_annotations) ''library.sqlite'')
                (booksDataSelectQuery []))
             (run_command (sqlite_command (path_join host_without_annotations
                (ANNOTATION_DB_FOLDER_ABSOLUTE_PATH host_without_annotations) ''library.sqlite'')
                annotationDataSelectQuery) world_with_notes))"
    by (simp add: syncHighlights_def sync_databases_def a e parse_rows_Nil
        annotationData_def finalData_def Let_def)
  have w: "write_phase default_settings [] w =
           (Finished, notice ''Successfully finished Apple Books Highlight Sync''
              (w\<lparr>vault := replace_folder ''Apple Books Highlights'' (vault w)\<rparr>))" for w
    by (simp add: write_phase_def entries_def default_settings_def)
  have v: "vault world_with_notes = vault_with_notes"
    by (simp add: world_with_notes_def)
  show ?thesis
    by (simp add: a e parse_rows_Nil s w notice_def run_command_def v replace_example)
qed


text \<open>
  C9, amended. With both database files found and an annotation query that yields no
  row, the grouped map is empty and the catalog statement ends in \<open>ZASSETID in ()\<close>.
  When the engine rejects the statement the call ends with that failure and the vault
  untouched; when the engine accepts it and yields no row the destination folder is
  replaced by an empty one and the call finishes.
\<close>

theorem empty_annotation_result:
  assumes "db_file_name h (ANNOTATION_DB_FOLDER_ABSOLUTE_PATH h) = Some a"
    and "db_file_name h (BOOKS_DB_FOLDER_ABSOLUTE_PATH h) = Some b"
    and "cmd1 = sqlite_command (path_join h (ANNOTATION_DB_FOLDER_ABSOLUTE_PATH h) a)
                  annotationDataSelectQuery"
    and "cmd2 = sqlite_command (path_join h (BOOKS_DB_FOLDER_ABSOLUTE_PATH h) b)
                  ''SELECT ZASSETID,ZAUTHOR,ZTITLE from ZBKLIBRARYASSET where ZASSETID in ()''"
    and "exec h cmd1 = Some stdout1"
    and "parse_rows stdout1 = []"
  shows "annotationData (parse_rows stdout1) = Inr []
         \<and> (exec h cmd2 = None \<longrightarrow>
              syncHighlights h st w = (Threw ExecError, w\<lparr>commands := commands w @ [cmd1, cmd2]\<rparr>))
         \<and> (exec h cmd2 = Some stdout2 \<and> parse_rows stdout2 = [] \<longrightarrow>
              syncHighlights h st w =
                (Finished,
                 \<lparr>vault = replace_folder (highlightsFolder st) (vault w),
                  notices = notices w @ [''Successfully finished Apple Books Highlight Sync''],
                  commands = commands w @ [cmd1, cmd2]\<rparr>))"
proof -
  have g: "annotationData (parse_rows stdout1) = Inr []"
    using assms(6) by (simp add: annotationData_def)
  have q: "sqlite_command (path_join h (BOOKS_DB_FOLDER_ABSOLUTE_PATH h) b)
             (booksDataSelectQuery []) = cmd2"
    using assms(4) by (simp add: empty_query)
  have s: "syncHighlights h st w =
           (case exec h cmd2 of
              None \<Rightarrow> (Threw ExecError, run_command cmd2 (run_command cmd1 w))
            | Some stdout2 \<Rightarrow>
                write_phase st (finalData [] (parse_rows stdout2))
                  (run_command cmd2 (run_command cmd1 w)))"
    using assms(1,2,5) g q
    by (simp add: syncHighlights_def sync_databases_def Let_def assms(3) [symmetric])
  have w: "write_phase st [] w' =
           (Finished, notice ''Successfully finished Apple Books Highlight Sync''
              (w'\<lparr>vault := replace_folder (highlightsFolder st) (vault w')\<rparr>))" for w'
    by (simp add: write_phase_def entries_def)
  show ?thesis
    by (simp add: g s w finalData_def notice_def run_command_def)
qed

theorem empty_annotation_result_witness:
  "syncHighlights host_without_annotations default_settings world_with_notes =
     (Finished,
      \<lparr>vault = \<lparr>folders = [''Apple Books Highlights''], files = [(''Inbox.md'', ''keep'')]\<rparr>,
       notices = [''Successfully finished Apple Books Highlight Sync''],
       commands =
         [sqlite_command (slash_join (ANNOTATION_DB_FOLDER_ABSOLUTE_PATH host_without_annotations) ''library.sqlite'')
            annotationDataSelectQuery,
          sqlite_command (slash_join (BOOKS_DB_FOLDER_ABSOLUTE_PATH host_without_annotations) ''library.sqlite'')
            ''SELECT ZASSETID,ZAUTHOR,ZTITLE from ZBKLIBRARYASSET where ZASSETID in ()'']\<rparr>)"
proof -
  have a: "db_file_name host_without_annotations d = Some ''library.sqlite''" for d
    by (simp add: db_file_name_def folder_files_def host_without_annotations_def
        one_database_def endsWith_def first_def suffix_def)
  have e: "exec host_without_annotations c = Some []" for c
    by (simp add: host_without_annotations_def empty_output_def)
  have p: "path_join host_without_annotations = slash_join"
    by (simp add: host_without_annotations_def)
  have v: "vault world_with_notes = vault_with_notes" "notices world_with_notes = []"
    "commands world_with_notes = []" "highlightsFolder default_settings = ''Apple Books Highlights''"
    by (simp_all add: world_with_notes_def default_settings_def)
  from empty_annotation_result [OF a a refl refl e parse_rows_Nil,
      of default_settings world_with_notes "[]"]
  show ?thesis
    by (simp add: e parse_rows_Nil p v replace_example)
qed

subsection \<open>Document renderer\<close>

lemma scenario_grouped:
  "annotationData scenario_annotation_rows = Inr [(''B1'', scenario_highlights)]"
  by (simp add: annotationData_def scenario_annotation_rows_def group_step_def row_key_def
      nth_opt_def to_string_def js_get_def js_set_def object_prototype_names_def
      highlight_of_def scenario_highlights_def)

lemma not_index_B1: "\<not> is_array_index ''B1''"
  by (simp add: is_array_index_def is_digit_def)

lemma scenario_joined:
  "entries (finalData [(''B1'', scenario_highlights)] scenario_catalog_rows) =
     [(''B1'', scenario_book)]"
  by (simp add: finalData_def scenario_catalog_rows_def join_step_def row_key_def nth_opt_def
      to_string_def js_get_def js_set_def synced_book_def scenario_book_def entries_def Let_def
      not_index_B1)

text \<open>
  C4. The body of a document is the metadata section, with the author's name and the
  link \<open>ibooks://assetid/\<close> followed by the book's identifier, then the highlights
  section with the selected texts in the order of the grouped sequence and the rule
  \<open>---\<close> on a line of its own between two texts. A field that is present is
  rendered as it is. In the scenario of the spec the rows are grouped under \<open>B1\<close>,
  the join has the one book, its document is \<open>My Book.md\<close> in the destination folder,
  and the body has the author line, the link and the two quotes around a rule.
\<close>

theorem document_rendering:
  "document_body \<lparr>bookId = i, authorName = a, bookTitle = t, highlights = Arr hs\<rparr> =
     Inr (''## Metadata\<newline>- Author: '' @ to_string a
          @ ''\<newline>- [Apple Books Link](ibooks://assetid/'' @ to_string i @ '')''
          @ ''\<newline>\<newline>## Highlights\<newline>''
          @ js_join ''\<newline>\<newline>---\<newline>'' (map (\<lambda>h. join_item (selectedText h)) hs))
   \<and> to_string (Some s) = s \<and> join_item (Some s) = s
   \<and> annotationData scenario_annotation_rows = Inr [(''B1'', scenario_highlights)]
   \<and> entries (finalData [(''B1'', scenario_highlights)] scenario_catalog_rows) =
       [(''B1'', scenario_book)]
   \<and> document_path folder scenario_book = folder @ ''/My Book.md''
   \<and> document_body scenario_book =
       Inr ''## Metadata\<newline>- Author: Jane Doe\<newline>- [Apple Books Link](ibooks://assetid/B1)\<newline>\<newline>## Highlights\<newline>Great quote\<newline>\<newline>---\<newline>Another line''"
proof -
  have general:
    "document_body \<lparr>bookId = i, authorName = a, bookTitle = t, highlights = Arr hs\<rparr> =
     Inr (''## Metadata\<newline>- Author: '' @ to_string a
          @ ''\<newline>- [Apple Books Link](ibooks://assetid/'' @ to_string i @ '')''
          @ ''\<newline>\<newline>## Highlights\<newline>''
          @ js_join ''\<newline>\<newline>---\<newline>'' (map (\<lambda>h. join_item (selectedText h)) hs))"
    by (simp add: document_body_def highlight_separator_def)
  have coercions: "to_string (Some s) = s" "join_item (Some s) = s"
    by (simp_all add: to_string_def join_item_def)
  have path: "document_path folder scenario_book = folder @ ''/My Book.md''"
    by (simp add: document_path_def scenario_book_def to_string_def)
  have body: "document_body scenario_book =
       Inr ''## Metadata\<newline>- Author: Jane Doe\<newline>- [Apple Books Link](ibooks://assetid/B1)\<newline>\<newline>## Highlights\<newline>Great quote\<newline>\<newline>---\<newline>Another line''"
    by (simp add: document_body_def scenario_book_def scenario_highlights_def to_string_def
        join_item_def highlight_separator_def)
  show ?thesis
    using general coercions scenario_grouped scenario_joined path body by (intro conjI)
qed

subsection \<open>Row parser\<close>

lemma split_from_no_separator:
  "sep \<noteq> [] \<Longrightarrow> \<not> sublist sep s \<Longrightarrow> split_from sep acc s = [acc @ s]"
proof (induction s arbitrary: acc)
  case Nil
  then show ?case by simp
next
  case (Cons c cs)
  from Cons.prems have "\<not> prefix sep (c # cs)" "\<not> sublist sep cs"
    by (auto simp: sublist_Cons_right)
  with Cons.IH [of "acc @ [c]"] Cons.prems(1) show ?case by simp
qed

lemma prefix_long_append:
  assumes "prefix s (u @ v)" and "length s \<le> length u"
  shows "prefix s u"
  using assms by (auto simp: prefix_append)

lemma split_from_first_separator:
  "sep \<noteq> [] \<Longrightarrow> \<not> sublist sep (a @ butlast sep) \<Longrightarrow>
   split_from sep acc (a @ sep @ rest) = (acc @ a) # split_from sep [] rest"
proof (induction a arbitrary: acc)
  case Nil
  then obtain c cs where sep: "sep = c # cs" by (cases sep) auto
  have "drop (length sep) (sep @ rest) = rest" by simp
  then show ?case using sep by (simp del: drop_append)
next
  case (Cons x xs)
  have "\<not> prefix sep (x # xs @ sep @ rest)"
  proof
    assume p: "prefix sep (x # xs @ sep @ rest)"
    have e: "x # xs @ sep @ rest = ((x # xs) @ butlast sep) @ ([last sep] @ rest)"
      using Cons.prems(1) by simp
    have "prefix sep ((x # xs) @ butlast sep)"
      by (rule prefix_long_append [of _ _ "[last sep] @ rest"]) (use p e Cons.prems(1) in auto)
    then show False using Cons.prems(2) by (auto simp: sublist_altdef intro: exI[of _ "(x # xs) @ butlast sep"] dest: prefix_imp_sublist)
  qed
  moreover have "\<not> sublist sep (xs @ butlast sep)"
    using Cons.prems(2) by (auto simp: sublist_Cons_right)
  ultimately show ?case using Cons.IH [of "acc @ [x]"] Cons.prems(1) by simp
qed

lemma split_from_join:
  "sep \<noteq> [] \<Longrightarrow> xs \<noteq> [] \<Longrightarrow>
   (\<forall>x\<in>set (butlast xs). \<not> sublist sep (x @ butlast sep)) \<Longrightarrow>
   \<not> sublist sep (last xs) \<Longrightarrow>
   split_from sep [] (js_join sep xs) = xs"
proof (induction sep xs rule: js_join.induct)
  case (1 sep)
  then show ?case by simp
next
  case (2 sep x)
  then show ?case by (simp add: split_from_no_separator)
next
  case (3 sep x y ys)
  then show ?case by (simp add: split_from_first_separator)
qed

lemma triple_parts:
  assumes "[c, c, c] = xs1 @ xs2"
  shows "set xs1 \<subseteq> {c}" and "set xs2 \<subseteq> {c}"
proof -
  have "set (xs1 @ xs2) = {c}" using assms [symmetric] by simp
  then show "set xs1 \<subseteq> {c}" and "set xs2 \<subseteq> {c}" by auto
qed

lemma triple_not_across_end:
  assumes "\<not> sublist [c, c, c] x" and "\<not> ends_with c x"
  shows "\<not> sublist [c, c, c] (x @ [c, c])"
proof
  assume "sublist [c, c, c] (x @ [c, c])"
  then consider "sublist [c, c, c] x" | "sublist [c, c, c] [c, c]"
    | xs1 xs2 where "[c, c, c] = xs1 @ xs2" "suffix xs1 x" "prefix xs2 [c, c]"
    by (auto simp: sublist_append)
  then show False
  proof cases
    case 1
    with assms(1) show False by simp
  next
    case 2
    then have "length [c, c, c] \<le> length [c, c]" by (rule sublist_length_le)
    then show False by simp
  next
    case 3
    from 3(3) have "length xs2 \<le> 2" using prefix_length_le by fastforce
    moreover from 3(1) have "length xs1 + length xs2 = 3"
      by (metis length_append length_Cons list.size(3) numeral_3_eq_3)
    ultimately have ne: "xs1 \<noteq> []" by auto
    then have "last xs1 \<in> set xs1" by simp
    with triple_parts(1) [OF 3(1)] have "last xs1 = c" by auto
    moreover from 3(2) obtain zs where "x = zs @ xs1" by (auto simp: suffix_def)
    ultimately have "ends_with c x" using ne by (simp add: ends_with_def)
    with assms(2) show False by simp
  qed
qed

lemma triple_not_across_left:
  assumes "\<not> sublist [c, c, c] a" and "\<not> sublist [c, c, c] r" and "r = [] \<or> hd r \<noteq> c"
  shows "\<not> sublist [c, c, c] (a @ r)"
proof
  assume "sublist [c, c, c] (a @ r)"
  then consider "sublist [c, c, c] a" | "sublist [c, c, c] r"
    | xs1 xs2 where "[c, c, c] = xs1 @ xs2" "suffix xs1 a" "prefix xs2 r"
    by (auto simp: sublist_append)
  then show False
  proof cases
    case 1
    with assms(1) show False by simp
  next
    case 2
    with assms(2) show False by simp
  next
    case 3
    show False
    proof (cases xs2)
      case Nil
      with 3(1,2) have "suffix [c, c, c] a" by simp
      then have "sublist [c, c, c] a" by (rule suffix_imp_sublist)
      with assms(1) show False by simp
    next
      case (Cons y ys)
      with triple_parts(2) [OF 3(1)] have "y = c" by simp
      with Cons 3(3) have "r \<noteq> [] \<and> hd r = c" by (auto simp: prefix_def)
      with assms(3) show False by simp
    qed
  qed
qed

lemma triple_not_in_other:
  assumes "c \<notin> set s"
  shows "\<not> sublist [c, c, c] s"
proof
  assume "sublist [c, c, c] s"
  then have "set [c, c, c] \<subseteq> set s" by (rule set_mono_sublist)
  with assms show False by simp
qed

lemma triple_not_across_right:
  assumes "c \<notin> set s" and "\<not> sublist [c, c, c] b"
  shows "\<not> sublist [c, c, c] (s @ b)"
proof
  assume "sublist [c, c, c] (s @ b)"
  then consider "sublist [c, c, c] s" | "sublist [c, c, c] b"
    | xs1 xs2 where "[c, c, c] = xs1 @ xs2" "suffix xs1 s" "prefix xs2 b"
    by (auto simp: sublist_append)
  then show False
  proof cases
    case 1
    with triple_not_in_other [OF assms(1)] show False by simp
  next
    case 2
    with assms(2) show False by simp
  next
    case 3
    show False
    proof (cases xs1)
      case Nil
      with 3(1,3) have "prefix [c, c, c] b" by simp
      then have "sublist [c, c, c] b" by (rule prefix_imp_sublist)
      with assms(2) show False by simp
    next
      case (Cons y ys)
      with triple_parts(1) [OF 3(1)] have "y = c" by simp
      moreover from 3(2) have "set xs1 \<subseteq> set s" by (rule set_mono_suffix)
      ultimately show False using Cons assms(1) by auto
    qed
  qed
qed

lemma triple_not_across_separator:
  assumes "c \<notin> set s" and "s \<noteq> []"
    and "\<not> sublist [c, c, c] a" and "\<not> sublist [c, c, c] b"
  shows "\<not> sublist [c, c, c] (a @ s @ b)"
proof (rule triple_not_across_left [OF assms(3)])
  show "\<not> sublist [c, c, c] (s @ b)"
    by (rule triple_not_across_right [OF assms(1,4)])
  show "s @ b = [] \<or> hd (s @ b) \<noteq> c"
    using assms(1,2) by (cases s) auto
qed

lemma join_without_triple:
  "c \<notin> set sep \<Longrightarrow> sep \<noteq> [] \<Longrightarrow> (\<forall>x\<in>set xs. \<not> sublist [c, c, c] x) \<Longrightarrow>
   \<not> sublist [c, c, c] (js_join sep xs)"
proof (induction sep xs rule: js_join.induct)
  case (1 sep)
  then show ?case by simp
next
  case (2 sep x)
  then show ?case by simp
next
  case (3 sep x y ys)
  then have "\<not> sublist [c, c, c] x" and "\<not> sublist [c, c, c] (js_join sep (y # ys))"
    by simp_all
  with 3(2,3) show ?case by (simp add: triple_not_across_separator)
qed

lemma split_row:
  assumes "row \<noteq> []"
    and "\<forall>f\<in>set row. \<not> sublist field_separator f"
    and "\<forall>f\<in>set (butlast row). \<not> ends_with CHR ''|'' f"
  shows "js_split (js_join field_separator row) field_separator = row"
proof -
  have "\<forall>f\<in>set (butlast row). \<not> sublist field_separator (f @ butlast field_separator)"
  proof
    fix f assume f: "f \<in> set (butlast row)"
    then have "f \<in> set row" by (rule in_set_butlastD)
    with assms(2) have "\<not> sublist [CHR ''|'', CHR ''|'', CHR ''|''] f"
      by (simp add: field_separator_def)
    moreover from f assms(3) have "\<not> ends_with CHR ''|'' f" by simp
    ultimately have "\<not> sublist [CHR ''|'', CHR ''|'', CHR ''|''] (f @ [CHR ''|'', CHR ''|''])"
      by (rule triple_not_across_end)
    then show "\<not> sublist field_separator (f @ butlast field_separator)"
      by (simp add: field_separator_def)
  qed
  moreover have "\<not> sublist field_separator (last row)"
    using assms(1,2) by simp
  moreover have "field_separator \<noteq> []" by (simp add: field_separator_def)
  ultimately have "split_from field_separator [] (js_join field_separator row) = row"
    using assms(1) by (simp add: split_from_join)
  then show ?thesis by (simp add: js_split_def field_separator_def)
qed

lemma split_rows:
  assumes "rs \<noteq> []"
    and "\<forall>r\<in>set rs. \<not> sublist row_separator r"
    and "\<forall>r\<in>set (butlast rs). \<not> ends_with CHR ''@'' r"
  shows "js_split (js_join row_separator rs) row_separator = rs"
proof -
  have "\<forall>r\<in>set (butlast rs). \<not> sublist row_separator (r @ butlast row_separator)"
  proof
    fix r assume r: "r \<in> set (butlast rs)"
    then have "r \<in> set rs" by (rule in_set_butlastD)
    with assms(2) have "\<not> sublist [CHR ''@'', CHR ''@'', CHR ''@''] r"
      by (simp add: row_separator_def)
    moreover from r assms(3) have "\<not> ends_with CHR ''@'' r" by simp
    ultimately have "\<not> sublist [CHR ''@'', CHR ''@'', CHR ''@''] (r @ [CHR ''@'', CHR ''@''])"
      by (rule triple_not_across_end)
    then show "\<not> sublist row_separator (r @ butlast row_separator)"
      by (simp add: row_separator_def)
  qed
  moreover have "\<not> sublist row_separator (last rs)"
    using assms(1,2) by simp
  moreover have "row_separator \<noteq> []" by (simp add: row_separator_def)
  ultimately have "split_from row_separator [] (js_join row_separator rs) = rs"
    using assms(1) by (simp add: split_from_join)
  then show ?thesis by (simp add: js_split_def row_separator_def)
qed

lemma row_without_row_separator:
  assumes "\<forall>f\<in>set row. \<not> sublist row_separator f"
  shows "\<not> sublist row_separator (js_join field_separator row)"
proof -
  have "\<not> sublist [CHR ''@'', CHR ''@'', CHR ''@''] (js_join ''|||'' row)"
    by (rule join_without_triple) (use assms in \<open>simp_all add: row_separator_def\<close>)
  then show ?thesis by (simp add: row_separator_def field_separator_def)
qed

text \<open>
  C5, amended. Take a field matrix whose fields contain neither separator and whose rows
  are not empty when serialised, and where in addition no field that is followed by a
  field separator ends in \<open>|\<close> and no row that is followed by a row separator ends in
  \<open>@\<close>. Serialising it and parsing the text gives the matrix back.
\<close>

theorem separator_round_trip:
  assumes fields: "\<forall>row\<in>set m. \<forall>f\<in>set row.
                     \<not> sublist row_separator f \<and> \<not> sublist field_separator f"
    and rows: "\<forall>row\<in>set m. js_join field_separator row \<noteq> []"
    and inner: "\<forall>row\<in>set m. \<forall>f\<in>set (butlast row). \<not> ends_with CHR ''|'' f"
    and outer: "\<forall>row\<in>set (butlast m). \<not> ends_with CHR ''@'' (js_join field_separator row)"
  shows "parse_rows (encode_rows m) = m"
proof (cases "m = []")
  case True
  then show ?thesis
    by (simp add: encode_rows_def parse_rows_def raw_rows_def js_split_def row_separator_def)
next
  case False
  let ?rs = "map (js_join field_separator) m"
  have "js_split (js_join row_separator ?rs) row_separator = ?rs"
  proof (rule split_rows)
    show "?rs \<noteq> []" using False by simp
    show "\<forall>r\<in>set ?rs. \<not> sublist row_separator r"
    proof
      fix r assume "r \<in> set ?rs"
      then obtain row where "row \<in> set m" and r: "r = js_join field_separator row" by auto
      with fields have "\<forall>f\<in>set row. \<not> sublist row_separator f" by simp
      then show "\<not> sublist row_separator r" unfolding r by (rule row_without_row_separator)
    qed
    show "\<forall>r\<in>set (butlast ?rs). \<not> ends_with CHR ''@'' r"
      using outer by (auto simp: map_butlast [symmetric])
  qed
  moreover have "filter (\<lambda>a. a \<noteq> []) ?rs = ?rs"
    using rows by (simp add: filter_id_conv)
  ultimately have raw: "raw_rows (encode_rows m) = ?rs"
    by (simp add: raw_rows_def encode_rows_def)
  have "js_split (js_join field_separator row) field_separator = row" if "row \<in> set m" for row
  proof (rule split_row)
    from rows that show "row \<noteq> []" by auto
    from fields that show "\<forall>f\<in>set row. \<not> sublist field_separator f" by simp
    from inner that show "\<forall>f\<in>set (butlast row). \<not> ends_with CHR ''|'' f" by simp
  qed
  then have "map (\<lambda>row. js_split row field_separator) ?rs = m"
    by (simp add: map_idI)
  with raw show ?thesis by (simp add: parse_rows_def)
qed

text \<open>
  C5, as stated, fails: the fields \<open>a|\<close> and \<open>b\<close> contain neither separator and
  the row is not empty, but its text \<open>a||||b\<close> is split at the leftmost \<open>|||\<close>,
  into \<open>a\<close> and \<open>|b\<close>.
\<close>

theorem separator_round_trip_counterexample:
  "\<not> sublist row_separator ''a|'' \<and> \<not> sublist field_separator ''a|''
   \<and> \<not> sublist row_separator ''b'' \<and> \<not> sublist field_separator ''b''
   \<and> js_join field_separator [''a|'', ''b''] \<noteq> []
   \<and> encode_rows [[''a|'', ''b'']] = ''a||||b''
   \<and> parse_rows (encode_rows [[''a|'', ''b'']]) = [[''a'', ''|b'']]
   \<and> parse_rows (encode_rows [[''a|'', ''b'']]) \<noteq> [[''a|'', ''b'']]"
  by (simp add: row_separator_def field_separator_def encode_rows_def parse_rows_def
      raw_rows_def js_split_def sublist_Cons_right)

theorem separator_round_trip_witness:
  "parse_rows (encode_rows [[''B1'', ''A1'', ''|Great @ quote''], [''B2'', ''A2'', []]]) =
     [[''B1'', ''A1'', ''|Great @ quote''], [''B2'', ''A2'', []]]"
  by (rule separator_round_trip)
    (simp_all add: row_separator_def field_separator_def ends_with_def sublist_Cons_right)

subsection \<open>Grouping annotations by book\<close>

lemma map_of_put: "map_of (put k v obj) = (map_of obj)(k \<mapsto> v)"
  by (induction obj) (auto simp: fun_eq_iff)

lemma keys_put:
  "map fst (put k v obj) = (if k \<in> fst ` set obj then map fst obj else map fst obj @ [k])"
  by (induction obj) auto

lemma dom_put: "fst ` set (put k v obj) = insert k (fst ` set obj)"
  by (induction obj) auto

lemma put_put: "put k v (put k v' obj) = put k v obj"
  by (induction obj) auto

lemma proto_is_inherited: "''__proto__'' \<in> set object_prototype_names"
  by (simp add: object_prototype_names_def)

lemma group_step_ok:
  assumes "row_key row \<notin> set object_prototype_names"
  shows "group_step acc row =
           Inr (put (row_key row) (own_or_empty acc (row_key row) @ [highlight_of row]) acc)"
proof -
  from assms proto_is_inherited have k: "row_key row \<noteq> ''__proto__''" by auto
  show ?thesis
  proof (cases "map_of acc (row_key row)")
    case None
    with assms k show ?thesis
      by (simp add: group_step_def js_get_def js_set_def map_of_put put_put own_or_empty_def)
  next
    case (Some hs)
    with k show ?thesis
      by (simp add: group_step_def js_get_def js_set_def own_or_empty_def)
  qed
qed

lemma reduce_rows_ok:
  assumes "\<forall>row\<in>set rows. row_key row \<notin> set object_prototype_names"
  shows "\<exists>acc'. reduce_rows acc rows = Inr acc'
           \<and> map fst acc' = map fst acc
               @ filter (\<lambda>k. k \<notin> fst ` set acc) (first_occurrences (map row_key rows))
           \<and> (\<forall>k. own_or_empty acc' k =
                  own_or_empty acc k @ map highlight_of (filter (\<lambda>row. row_key row = k) rows))"
  using assms
proof (induction rows arbitrary: acc)
  case Nil
  then show ?case by simp
next
  case (Cons row rows)
  let ?k = "row_key row"
  let ?acc1 = "put ?k (own_or_empty acc ?k @ [highlight_of row]) acc"
  from Cons.prems have step: "group_step acc row = Inr ?acc1"
    by (simp add: group_step_ok)
  from Cons.prems have "\<forall>row\<in>set rows. row_key row \<notin> set object_prototype_names" by simp
  from Cons.IH [OF this, of ?acc1] obtain acc' where
    r: "reduce_rows ?acc1 rows = Inr acc'"
    and ks: "map fst acc' = map fst ?acc1
               @ filter (\<lambda>k. k \<notin> fst ` set ?acc1) (first_occurrences (map row_key rows))"
    and vs: "\<And>k. own_or_empty acc' k =
                  own_or_empty ?acc1 k @ map highlight_of (filter (\<lambda>row. row_key row = k) rows)"
    by blast
  have set1: "fst ` set ?acc1 = insert ?k (fst ` set acc)"
    by (rule dom_put)
  have "map fst acc' = map fst acc
          @ filter (\<lambda>k. k \<notin> fst ` set acc) (first_occurrences (map row_key (row # rows)))"
  proof (cases "?k \<in> fst ` set acc")
    case True
    then have "filter (\<lambda>k. k \<notin> fst ` set acc) (filter (\<lambda>y. y \<noteq> ?k) xs)
               = filter (\<lambda>k. k \<notin> fst ` set acc) xs" for xs
      by (induction xs) auto
    with True ks set1 show ?thesis by (simp add: keys_put insert_absorb)
  next
    case False
    have "filter (\<lambda>k. k \<notin> fst ` set acc) (filter (\<lambda>y. y \<noteq> ?k) xs)
               = filter (\<lambda>k. k \<notin> insert ?k (fst ` set acc)) xs" for xs
      by (induction xs) auto
    with False ks set1 show ?thesis by (simp add: keys_put)
  qed
  moreover have "own_or_empty acc' k =
          own_or_empty acc k @ map highlight_of (filter (\<lambda>row. row_key row = k) (row # rows))" for k
    using vs [of k] by (simp add: own_or_empty_def map_of_put)
  ultimately show ?case using step r by simp
qed

lemma set_first_occurrences: "set (first_occurrences xs) = set xs"
  by (induction xs) auto

lemma distinct_first_occurrences: "distinct (first_occurrences xs)"
  by (induction xs) (auto simp: set_first_occurrences)

text \<open>
  The grouping on rows none of whose book identifiers is the name of a member of
  \<open>Object.prototype\<close>: it returns a map whose keys are the book identifiers of the
  rows in the order of their first occurrence, and the sequence of a book holds the
  highlights of exactly the rows of that book, in row order.
\<close>

lemma grouping_by_book:
  assumes "\<forall>row\<in>set rows. row_key row \<notin> set object_prototype_names"
  shows "\<exists>ad. annotationData rows = Inr ad
           \<and> map fst ad = first_occurrences (map row_key rows)
           \<and> (\<forall>k. map_of ad k =
                  (if k \<in> row_key ` set rows
                   then Some (map highlight_of (filter (\<lambda>row. row_key row = k) rows))
                   else None))"
proof -
  from reduce_rows_ok [OF assms, of "[]"] obtain ad where
    r: "reduce_rows [] rows = Inr ad"
    and ks: "map fst ad = first_occurrences (map row_key rows)"
    and vs: "\<And>k. own_or_empty ad k = map highlight_of (filter (\<lambda>row. row_key row = k) rows)"
    by (auto simp: own_or_empty_def)
  have dom: "fst ` set ad = row_key ` set rows"
  proof -
    have "set (map fst ad) = set (map row_key rows)"
      by (simp only: ks set_first_occurrences)
    then show ?thesis by simp
  qed
  have "map_of ad k =
          (if k \<in> row_key ` set rows
           then Some (map highlight_of (filter (\<lambda>row. row_key row = k) rows))
           else None)" for k
  proof (cases "map_of ad k")
    case None
    then have "k \<notin> fst ` set ad" by (simp add: map_of_eq_None_iff)
    with dom None show ?thesis by simp
  next
    case (Some hs)
    then have "k \<in> fst ` set ad" by (metis map_of_eq_None_iff option.distinct(1))
    moreover from Some vs [of k] have "hs = map highlight_of (filter (\<lambda>row. row_key row = k) rows)"
      by (simp add: own_or_empty_def)
    ultimately show ?thesis using dom Some by simp
  qed
  with r ks show ?thesis by (auto simp: annotationData_def)
qed

text \<open>
  C6. The claim has the grouping return the map for every sequence of rows, each
  sequence created on the first occurrence of its book identifier. The code breaks it
  at the one row \<open>constructor\<close>, \<open>A1\<close>, \<open>Great quote\<close>, parsed from the query
  output \<open>constructor|||A1|||Great quote@@@\<close>: the test \<open>!acc[row[0]]\<close> sees the
  member inherited from \<open>Object.prototype\<close>, no sequence is created, and \<open>push\<close> is
  called on a value that has none. The grouping throws where the claim has the map with
  the one highlight under \<open>constructor\<close>.
\<close>

theorem grouping_throws_on_inherited_name:
  "parse_rows ''constructor|||A1|||Great quote@@@'' =
     [[''constructor'', ''A1'', ''Great quote'']]
   \<and> annotationData [[''constructor'', ''A1'', ''Great quote'']] = Inl TypeError"
proof -
  have "parse_rows ''constructor|||A1|||Great quote@@@'' =
          [[''constructor'', ''A1'', ''Great quote'']]"
    by (simp add: parse_rows_def raw_rows_def js_split_def row_separator_def
        field_separator_def)
  moreover have "annotationData [[''constructor'', ''A1'', ''Great quote'']] = Inl TypeError"
    by (simp add: annotationData_def group_step_def row_key_def nth_opt_def to_string_def
        js_get_def object_prototype_names_def)
  ultimately show ?thesis by simp
qed

lemma grouping_by_book_scenario:
  "\<exists>ad. annotationData scenario_annotation_rows = Inr ad
         \<and> map fst ad = [''B1'']
         \<and> map_of ad ''B1'' = Some scenario_highlights"
proof -
  have h: "\<forall>row\<in>set scenario_annotation_rows. row_key row \<notin> set object_prototype_names"
    by (simp add: scenario_annotation_rows_def row_key_def nth_opt_def to_string_def
        object_prototype_names_def)
  from grouping_by_book [OF h] obtain ad where
    "annotationData scenario_annotation_rows = Inr ad"
    and "map fst ad = first_occurrences (map row_key scenario_annotation_rows)"
    and "map_of ad ''B1'' =
          (if ''B1'' \<in> row_key ` set scenario_annotation_rows
           then Some (map highlight_of
                  (filter (\<lambda>row. row_key row = ''B1'') scenario_annotation_rows))
           else None)"
    by blast
  then show ?thesis
    by (intro exI [of _ ad])
      (simp add: scenario_annotation_rows_def row_key_def nth_opt_def to_string_def
        highlight_of_def scenario_highlights_def)
qed

subsection \<open>Join of the grouped annotations with the catalog\<close>

lemma join_step_other:
  "row_key r \<noteq> k \<Longrightarrow> map_of (join_step ad fd r) k = map_of fd k"
  by (simp add: join_step_def Let_def js_set_def map_of_put js_get_def split: option.splits)

lemma join_step_own:
  assumes "map_of ad (row_key r) = Some hs" and "row_key r \<noteq> ''__proto__''"
  shows "join_step ad fd r = put (row_key r) (synced_book r (Arr hs)) fd"
  using assms by (simp add: join_step_def js_get_def js_set_def)

lemma join_step_regular:
  assumes "row_key r \<notin> set object_prototype_names"
  shows "join_step ad fd r =
           (case map_of ad (row_key r) of
              None \<Rightarrow> fd
            | Some hs \<Rightarrow> put (row_key r) (synced_book r (Arr hs)) fd)"
proof -
  from assms proto_is_inherited have "row_key r \<noteq> ''__proto__''" by auto
  with assms show ?thesis
    by (simp add: join_step_def js_get_def js_set_def split: option.splits)
qed

lemma distinct_put: "distinct (map fst obj) \<Longrightarrow> distinct (map fst (put k v obj))"
  by (simp add: keys_put)

lemma distinct_join_step:
  "distinct (map fst fd) \<Longrightarrow> distinct (map fst (join_step ad fd r))"
  by (simp add: join_step_def Let_def js_set_def distinct_put split: property.splits)

lemma distinct_foldl_join:
  "distinct (map fst fd) \<Longrightarrow> distinct (map fst (foldl (join_step ad) fd cat))"
  by (induction cat arbitrary: fd) (simp_all add: distinct_join_step)

lemma distinct_finalData: "distinct (map fst (finalData ad cat))"
  by (simp add: finalData_def distinct_foldl_join)

lemma map_sort_key: "map f (sort_key (\<lambda>p. g (f p)) xs) = sort_key g (map f xs)"
proof (induction xs)
  case Nil
  then show ?case by simp
next
  case (Cons x xs)
  have "map f (insort_key (\<lambda>p. g (f p)) x ys) = insort_key g (f x) (map f ys)" for ys
    by (induction ys) auto
  with Cons show ?case by simp
qed

lemma keys_property_order: "keys obj = property_order (map fst obj)"
  by (simp add: keys_def entries_def property_order_def map_sort_key filter_map comp_def)

lemma set_entries: "set (entries obj) = set obj"
  by (auto simp: entries_def)

lemma set_property_order: "set (property_order ks) = set ks"
  by (auto simp: property_order_def)

lemma length_property_order: "length (property_order ks) = length ks"
  by (simp add: property_order_def sum_length_filter_compl)

lemma distinct_property_order: "distinct ks \<Longrightarrow> distinct (property_order ks)"
  by (auto simp: property_order_def)

lemma distinct_keys_entries:
  "distinct (map fst obj) \<Longrightarrow> distinct (map fst (entries obj))"
  using distinct_property_order [of "map fst obj"]
  by (simp add: keys_property_order [unfolded keys_def])

lemma last_catalog_row_wins:
  assumes "map_of ad k = Some hs" and "k \<noteq> ''__proto__''"
  shows "map_of (foldl (join_step ad) fd cat) k =
           (if filter (\<lambda>r. row_key r = k) cat = [] then map_of fd k
            else Some (synced_book (last (filter (\<lambda>r. row_key r = k) cat)) (Arr hs)))"
proof (induction cat rule: rev_induct)
  case Nil
  then show ?case by simp
next
  case (snoc r cat)
  show ?case
  proof (cases "row_key r = k")
    case True
    with assms show ?thesis by (simp add: join_step_own map_of_put)
  next
    case False
    with snoc show ?thesis by (simp add: join_step_other)
  qed
qed

lemma keys_foldl_join:
  assumes "\<forall>r\<in>set cat. row_key r \<notin> set object_prototype_names"
  shows "map fst (foldl (join_step ad) fd cat) =
           map fst fd @ filter (\<lambda>k. k \<notin> fst ` set fd)
             (first_occurrences (filter (\<lambda>k. k \<in> fst ` set ad) (map row_key cat)))"
  using assms
proof (induction cat arbitrary: fd)
  case Nil
  then show ?case by simp
next
  case (Cons r cat)
  let ?k = "row_key r"
  from Cons.prems have rest: "\<forall>r\<in>set cat. row_key r \<notin> set object_prototype_names"
    and k: "?k \<notin> set object_prototype_names" by simp_all
  show ?case
  proof (cases "map_of ad ?k")
    case None
    then have "?k \<notin> fst ` set ad" by (simp add: map_of_eq_None_iff)
    with None Cons.IH [OF rest, of fd] k show ?thesis by (simp add: join_step_regular)
  next
    case (Some hs)
    then have in_ad: "?k \<in> fst ` set ad" by (metis map_of_eq_None_iff option.distinct(1))
    let ?fd1 = "put ?k (synced_book r (Arr hs)) fd"
    from Some k have step: "join_step ad fd r = ?fd1" by (simp add: join_step_regular)
    note ih = Cons.IH [OF rest, of ?fd1]
    show ?thesis
    proof (cases "?k \<in> fst ` set fd")
      case True
      then have "filter (\<lambda>k. k \<notin> fst ` set fd) (filter (\<lambda>y. y \<noteq> ?k) xs)
                 = filter (\<lambda>k. k \<notin> fst ` set fd) xs" for xs
        by (induction xs) auto
      with True ih step in_ad show ?thesis by (simp add: keys_put dom_put insert_absorb)
    next
      case False
      have "filter (\<lambda>k. k \<notin> fst ` set fd) (filter (\<lambda>y. y \<noteq> ?k) xs)
                 = filter (\<lambda>k. k \<notin> insert ?k (fst ` set fd)) xs" for xs
        by (induction xs) auto
      with False ih step in_ad show ?thesis by (simp add: keys_put dom_put)
    qed
  qed
qed

lemma book_id_put:
  "\<forall>e\<in>set obj. to_string (bookId (snd e)) = fst e \<Longrightarrow> to_string (bookId v) = k \<Longrightarrow>
   \<forall>e\<in>set (put k v obj). to_string (bookId (snd e)) = fst e"
  by (induction obj) auto

lemma book_id_synced_book: "to_string (bookId (synced_book r hv)) = row_key r"
  by (simp add: synced_book_def row_key_def)

lemma book_id_js_set:
  assumes "\<forall>e\<in>set fd. to_string (bookId (snd e)) = fst e"
  shows "\<forall>e\<in>set (js_set fd (row_key r) (synced_book r hv)). to_string (bookId (snd e)) = fst e"
proof (cases "row_key r = ''__proto__''")
  case True
  with assms show ?thesis by (simp add: js_set_def)
next
  case False
  have "\<forall>e\<in>set (put (row_key r) (synced_book r hv) fd). to_string (bookId (snd e)) = fst e"
    using assms book_id_synced_book by (rule book_id_put)
  with False show ?thesis by (simp add: js_set_def)
qed

lemma book_id_join_step:
  assumes "\<forall>e\<in>set fd. to_string (bookId (snd e)) = fst e"
  shows "\<forall>e\<in>set (join_step ad fd r). to_string (bookId (snd e)) = fst e"
proof (cases "js_get ad (row_key r)")
  case (Own hs)
  then have "join_step ad fd r = js_set fd (row_key r) (synced_book r (Arr hs))"
    by (simp add: join_step_def)
  with book_id_js_set [OF assms] show ?thesis by simp
next
  case Inherited
  then have "join_step ad fd r = js_set fd (row_key r) (synced_book r NotArr)"
    by (simp add: join_step_def)
  with book_id_js_set [OF assms] show ?thesis by simp
next
  case Absent
  with assms show ?thesis by (simp add: join_step_def)
qed

lemma book_id_foldl_join:
  "\<forall>e\<in>set fd. to_string (bookId (snd e)) = fst e \<Longrightarrow>
   \<forall>e\<in>set (foldl (join_step ad) fd cat). to_string (bookId (snd e)) = fst e"
proof (induction cat arbitrary: fd)
  case Nil
  then show ?case by simp
next
  case (Cons r cat)
  from Cons.prems have "\<forall>e\<in>set (join_step ad fd r). to_string (bookId (snd e)) = fst e"
    by (rule book_id_join_step)
  then have "\<forall>e\<in>set (foldl (join_step ad) (join_step ad fd r) cat).
               to_string (bookId (snd e)) = fst e"
    by (rule Cons.IH)
  then show ?case by simp
qed

lemma js_set_no_proto:
  "''__proto__'' \<notin> fst ` set obj \<Longrightarrow> ''__proto__'' \<notin> fst ` set (js_set obj k v)"
  by (simp add: js_set_def dom_put)

lemma group_step_no_proto:
  assumes "group_step acc row = Inr acc'" and "''__proto__'' \<notin> fst ` set acc"
  shows "''__proto__'' \<notin> fst ` set acc'"
proof -
  let ?k = "row_key row"
  let ?acc1 = "case js_get acc ?k of Absent \<Rightarrow> js_set acc ?k [] | _ \<Rightarrow> acc"
  have a1: "''__proto__'' \<notin> fst ` set ?acc1"
    using assms(2) by (cases "js_get acc ?k") (simp_all add: js_set_no_proto)
  from assms(1) obtain hs where "acc' = js_set ?acc1 ?k hs"
    by (cases "js_get ?acc1 ?k") (auto simp: group_step_def Let_def)
  with a1 show ?thesis by (simp add: js_set_no_proto)
qed

lemma reduce_rows_no_proto:
  "reduce_rows acc rows = Inr acc' \<Longrightarrow> ''__proto__'' \<notin> fst ` set acc \<Longrightarrow>
   ''__proto__'' \<notin> fst ` set acc'"
proof (induction rows arbitrary: acc)
  case Nil
  then show ?case by simp
next
  case (Cons row rows)
  from Cons.prems(1) obtain acc1 where s: "group_step acc row = Inr acc1"
    and r: "reduce_rows acc1 rows = Inr acc'"
    by (cases "group_step acc row") auto
  from s Cons.prems(2) have "''__proto__'' \<notin> fst ` set acc1" by (rule group_step_no_proto)
  with r show ?case by (rule Cons.IH)
qed

lemma annotationData_no_proto:
  "annotationData rows = Inr ad \<Longrightarrow> ''__proto__'' \<notin> fst ` set ad"
  using reduce_rows_no_proto [of "[]" rows ad] by (simp add: annotationData_def)

text \<open>
  C1, amended. For a catalog result none of whose book identifiers is the name of a
  member of \<open>Object.prototype\<close>, the books of the join are exactly those whose
  identifier is a key of the grouped map and the first field of a catalog row, each
  once and under its own identifier; there are at most as many as keys of the grouped
  map and as catalog rows. They are emitted in the property order of the result object:
  the identifiers that are array indices in ascending numeric order, then the others in
  the order of their first occurrence in the catalog result.
\<close>

theorem join_result:
  assumes "\<forall>r\<in>set cat. row_key r \<notin> set object_prototype_names"
  shows "set (keys (finalData ad cat)) = set (keys ad) \<inter> row_key ` set cat
         \<and> (\<forall>e\<in>set (entries (finalData ad cat)). to_string (bookId (snd e)) = fst e)
         \<and> distinct (keys (finalData ad cat))
         \<and> length (entries (finalData ad cat)) \<le> min (length (keys ad)) (length cat)
         \<and> keys (finalData ad cat) =
             property_order
               (first_occurrences (filter (\<lambda>k. k \<in> set (keys ad)) (map row_key cat)))"
proof -
  let ?fd = "finalData ad cat"
  have ka: "set (keys ad) = fst ` set ad"
    by (simp add: keys_property_order set_property_order)
  have raw: "map fst ?fd =
               first_occurrences (filter (\<lambda>k. k \<in> set (keys ad)) (map row_key cat))"
    using keys_foldl_join [OF assms, of ad "[]"] by (simp add: finalData_def ka)
  have order: "keys ?fd =
                 property_order
                   (first_occurrences (filter (\<lambda>k. k \<in> set (keys ad)) (map row_key cat)))"
    by (simp only: keys_property_order raw)
  have members: "set (keys ?fd) = set (keys ad) \<inter> row_key ` set cat"
    by (auto simp: order set_property_order set_first_occurrences)
  have ids: "\<forall>e\<in>set (entries ?fd). to_string (bookId (snd e)) = fst e"
    using book_id_foldl_join [of "[]" ad cat] by (simp add: set_entries finalData_def)
  have dist: "distinct (keys ?fd)"
    using distinct_keys_entries [OF distinct_finalData] by (simp add: keys_def)
  have len: "length (entries ?fd) = length (keys ?fd)"
    by (simp add: keys_def)
  have "length (keys ?fd) \<le> length cat"
  proof -
    have "length (first_occurrences xs) \<le> length xs" for xs :: "string list"
      by (induction xs) (auto intro: le_trans [OF length_filter_le])
    from this [of "filter (\<lambda>k. k \<in> set (keys ad)) (map row_key cat)"]
    have "length (keys ?fd) \<le> length (filter (\<lambda>k. k \<in> set (keys ad)) (map row_key cat))"
      by (simp add: order length_property_order)
    also have "\<dots> \<le> length (map row_key cat)" by (rule length_filter_le)
    finally show ?thesis by simp
  qed
  moreover have "length (keys ?fd) \<le> length (keys ad)"
  proof -
    have "length (keys ?fd) = card (set (keys ?fd))"
      using dist by (simp add: distinct_card)
    also have "\<dots> \<le> card (set (keys ad))"
      by (rule card_mono) (auto simp: members)
    also have "\<dots> \<le> length (keys ad)" by (rule card_length)
    finally show ?thesis .
  qed
  ultimately have "length (entries ?fd) \<le> min (length (keys ad)) (length cat)"
    by (simp add: len)
  with members ids dist order show ?thesis by blast
qed

text \<open>
  C10. The join holds at most one book for an identifier. When the identifier is a key
  of the grouped map and the catalog has rows for it, the book of the join has the
  author and the title of the last of these rows and the highlight sequence of the
  grouped map.
\<close>

theorem one_book_per_id:
  assumes "annotationData rows = Inr ad"
    and "map_of ad k = Some hs"
    and "rs = filter (\<lambda>r. row_key r = k) cat"
    and "rs \<noteq> []"
  shows "distinct (keys (finalData ad cat))
         \<and> (k, \<lparr>bookId = nth_opt (last rs) 0, authorName = nth_opt (last rs) 1,
                bookTitle = nth_opt (last rs) 2, highlights = Arr hs\<rparr>)
             \<in> set (entries (finalData ad cat))"
proof -
  have dist: "distinct (keys (finalData ad cat))"
    using distinct_keys_entries [OF distinct_finalData] by (simp add: keys_def)
  from assms(2) have "k \<in> fst ` set ad" by (metis map_of_eq_None_iff option.distinct(1))
  with annotationData_no_proto [OF assms(1)] have k: "k \<noteq> ''__proto__''" by blast
  from last_catalog_row_wins [OF assms(2) k, of "[]" cat] assms(3,4)
  have "map_of (finalData ad cat) k = Some (synced_book (last rs) (Arr hs))"
    by (simp add: finalData_def)
  then have "(k, synced_book (last rs) (Arr hs)) \<in> set (finalData ad cat)"
    by (rule map_of_SomeD)
  with dist show ?thesis by (simp add: set_entries synced_book_def)
qed

lemma index_3: "is_array_index ''3''" and index_20: "is_array_index ''20''"
  by (simp_all add: is_array_index_def is_digit_def decimal_value_def digit_value_def)

lemma store_keys: "keys store_grouped = [''3'', ''20'']"
  by (simp add: keys_def entries_def store_grouped_def index_3 index_20 decimal_value_def
      digit_value_def)

text \<open>
  C1, as stated, fails on the order: the catalog lists the book \<open>20\<close> before the
  book \<open>3\<close>, both with highlights, and the join emits \<open>3\<close> before \<open>20\<close>.
\<close>

theorem join_result_counterexample:
  "annotationData store_annotation_rows = Inr store_grouped
   \<and> map row_key store_catalog_rows = [''20'', ''3'']
   \<and> keys (finalData store_grouped store_catalog_rows) = [''3'', ''20'']"
proof -
  have "annotationData store_annotation_rows = Inr store_grouped"
    by (simp add: annotationData_def store_annotation_rows_def group_step_def row_key_def
        nth_opt_def to_string_def js_get_def js_set_def object_prototype_names_def
        highlight_of_def store_grouped_def)
  moreover have "map row_key store_catalog_rows = [''20'', ''3'']"
    by (simp add: store_catalog_rows_def row_key_def nth_opt_def to_string_def)
  moreover have "keys (finalData store_grouped store_catalog_rows) = [''3'', ''20'']"
    by (simp add: keys_def entries_def finalData_def store_catalog_rows_def join_step_def
        row_key_def nth_opt_def to_string_def js_get_def js_set_def store_grouped_def
        index_3 index_20 decimal_value_def digit_value_def Let_def)
  ultimately show ?thesis by simp
qed

theorem join_result_witness:
  "set (keys (finalData store_grouped store_catalog_rows)) = {''3'', ''20''}
   \<and> length (entries (finalData store_grouped store_catalog_rows)) \<le> 2
   \<and> keys (finalData store_grouped store_catalog_rows) = property_order [''20'', ''3'']"
proof -
  let ?fd = "finalData store_grouped store_catalog_rows"
  have h: "\<forall>r\<in>set store_catalog_rows. row_key r \<notin> set object_prototype_names"
    by (simp add: store_catalog_rows_def row_key_def nth_opt_def to_string_def
        object_prototype_names_def)
  have c: "map row_key store_catalog_rows = [''20'', ''3'']"
    by (simp add: store_catalog_rows_def row_key_def nth_opt_def to_string_def)
  have i: "row_key ` set store_catalog_rows = {''20'', ''3''}"
    using arg_cong [OF c, of set] by simp
  have l: "length store_catalog_rows = 2"
    by (simp add: store_catalog_rows_def)
  note r = join_result [OF h, of store_grouped]
  from r have "set (keys ?fd) = set (keys store_grouped) \<inter> row_key ` set store_catalog_rows"
    by (rule conjunct1)
  then have members: "set (keys ?fd) = {''3'', ''20''}"
    by (simp only: store_keys i) (simp add: insert_commute)
  from r have "length (entries ?fd) \<le> min (length (keys store_grouped)) (length store_catalog_rows)"
    by blast
  then have size: "length (entries ?fd) \<le> 2"
    by (simp add: store_keys l)
  from r have "keys ?fd = property_order (first_occurrences
                 (filter (\<lambda>k. k \<in> set (keys store_grouped)) (map row_key store_catalog_rows)))"
    by blast
  then have order: "keys ?fd = property_order [''20'', ''3'']"
    by (simp add: store_keys c)
  from members size order show ?thesis by (intro conjI)
qed

theorem one_book_per_id_witness:
  "(''B1'', \<lparr>bookId = Some ''B1'', authorName = Some ''J. Doe'',
             bookTitle = Some ''My Book, 2nd edition'', highlights = Arr scenario_highlights\<rparr>)
     \<in> set (entries (finalData [(''B1'', scenario_highlights)] repeated_catalog_rows))"
proof -
  have m: "map_of [(''B1'', scenario_highlights)] ''B1'' = Some scenario_highlights"
    by simp
  have f: "repeated_catalog_rows = filter (\<lambda>r. row_key r = ''B1'') repeated_catalog_rows"
    by (simp add: repeated_catalog_rows_def row_key_def nth_opt_def to_string_def)
  have n: "repeated_catalog_rows \<noteq> []"
    by (simp add: repeated_catalog_rows_def)
  from one_book_per_id [OF scenario_grouped m f n] show ?thesis
    by (simp add: repeated_catalog_rows_def nth_opt_def)
qed

subsection \<open>Vault writer\<close>

lemma delete_absent:
  assumes "\<not> getAbstractFileByPath v p"
  shows "vault_delete v p = v"
proof -
  from assms have a: "\<forall>q\<in>set (folders v). \<not> at_or_inside p q"
    and b: "\<forall>e\<in>set (files v). \<not> at_or_inside p (fst e)"
    by (auto simp: getAbstractFileByPath_def list_ex_iff)
  from a have "filter (\<lambda>d. \<not> at_or_inside p d) (folders v) = folders v"
    by (simp add: filter_id_conv)
  moreover from b have "filter (\<lambda>e. \<not> at_or_inside p (fst e)) (files v) = files v"
    by (simp add: filter_id_conv)
  ultimately show ?thesis by (simp add: vault_delete_def)
qed

lemma replace_folder_eq: "replace_folder f v = createFolder (vault_delete v f) f"
  by (simp add: replace_folder_def delete_absent)

lemma folders_replace_folder:
  "folders (replace_folder f v) = filter (\<lambda>d. \<not> at_or_inside f d) (folders v) @ [f]"
  by (simp add: replace_folder_eq createFolder_def vault_delete_def)

lemma files_replace_folder:
  "files (replace_folder f v) = filter (\<lambda>e. \<not> at_or_inside f (fst e)) (files v)"
  by (simp add: replace_folder_eq createFolder_def vault_delete_def)

lemma inside_document_path: "inside f (document_path f b)"
  by (simp add: inside_def document_path_def)

lemma not_inside_self: "\<not> inside f f"
  by (simp add: inside_def prefix_def)

lemma folders_create_documents:
  "folders (snd (create_documents f v es)) = folders v"
  by (induction es arbitrary: v) (auto simp: vault_create_def split: sum.splits)

lemma all_rendered:
  "create_documents f v es = (None, v') \<Longrightarrow> \<forall>e\<in>set es. \<exists>b. document_body (snd e) = Inr b"
  by (induction es arbitrary: v) (auto split: sum.splits)

lemma filter_put_outside:
  "\<not> P k \<Longrightarrow> filter (\<lambda>e. P (fst e)) (put k c fs) = filter (\<lambda>e. P (fst e)) fs"
  by (induction fs) auto

lemma filter_put_inside:
  "P k \<Longrightarrow> filter (\<lambda>e. P (fst e)) (put k c fs) = put k c (filter (\<lambda>e. P (fst e)) fs)"
  by (induction fs) auto

lemma files_outside_create_documents:
  "filter (\<lambda>e. \<not> at_or_inside f (fst e)) (files (snd (create_documents f v es)))
     = filter (\<lambda>e. \<not> at_or_inside f (fst e)) (files v)"
proof (induction es arbitrary: v)
  case Nil
  then show ?case by simp
next
  case (Cons e es)
  show ?case
  proof (cases "document_body (snd e)")
    case (Inl err)
    then show ?thesis by simp
  next
    case (Inr b)
    have "at_or_inside f (document_path f (snd e))"
      by (simp add: at_or_inside_def inside_document_path)
    then have "filter (\<lambda>e. \<not> at_or_inside f (fst e)) (put (document_path f (snd e)) b (files v))
                 = filter (\<lambda>e. \<not> at_or_inside f (fst e)) (files v)"
      using filter_put_outside [of "\<lambda>q. \<not> at_or_inside f q"] by simp
    with Inr Cons.IH [of "vault_create v (document_path f (snd e)) b"] show ?thesis
      by (simp add: vault_create_def)
  qed
qed

lemma files_inside_create_documents:
  assumes "filter (\<lambda>e. inside f (fst e)) (files v1) = filter (\<lambda>e. inside f (fst e)) (files v2)"
  shows "fst (create_documents f v1 es) = fst (create_documents f v2 es)
         \<and> filter (\<lambda>e. inside f (fst e)) (files (snd (create_documents f v1 es)))
             = filter (\<lambda>e. inside f (fst e)) (files (snd (create_documents f v2 es)))"
  using assms
proof (induction es arbitrary: v1 v2)
  case Nil
  then show ?case by simp
next
  case (Cons e es)
  show ?case
  proof (cases "document_body (snd e)")
    case (Inl err)
    with Cons.prems show ?thesis by simp
  next
    case (Inr b)
    let ?p = "document_path f (snd e)"
    have "filter (\<lambda>e. inside f (fst e)) (files (vault_create v1 ?p b))
            = filter (\<lambda>e. inside f (fst e)) (files (vault_create v2 ?p b))"
      using Cons.prems by (simp add: vault_create_def filter_put_inside inside_document_path)
    from Cons.IH [OF this] Inr show ?thesis by simp
  qed
qed

lemma create_documents_again:
  assumes "create_documents f (replace_folder f v) es = (r, v')"
  shows "create_documents f (replace_folder f v') es = (r, v')"
proof -
  from assms have v': "v' = snd (create_documents f (replace_folder f v) es)" by simp
  have "folders (replace_folder f v') = folders (replace_folder f v)"
    by (simp add: v' folders_replace_folder folders_create_documents at_or_inside_def)
  moreover have "files (replace_folder f v') = files (replace_folder f v)"
    by (simp add: v' files_replace_folder files_outside_create_documents)
  ultimately have "replace_folder f v' = replace_folder f v" by simp
  with assms show ?thesis by simp
qed

lemma map_of_create_documents:
  assumes "create_documents f v es = (None, v')"
  shows "map_of (files v') p =
           (if filter (\<lambda>e. document_path f (snd e) = p) es = [] then map_of (files v) p
            else (case document_body (snd (last (filter (\<lambda>e. document_path f (snd e) = p) es))) of
                    Inr b \<Rightarrow> Some b | Inl err \<Rightarrow> None))"
  using assms
proof (induction es arbitrary: v)
  case Nil
  then show ?case by simp
next
  case (Cons e es)
  from Cons.prems obtain b where b: "document_body (snd e) = Inr b"
    and rest: "create_documents f (vault_create v (document_path f (snd e)) b) es = (None, v')"
    by (cases "document_body (snd e)") auto
  from Cons.IH [OF rest] b show ?case
    by (simp add: vault_create_def map_of_put)
qed

lemma keys_create_documents:
  assumes "create_documents f v es = (None, v')"
  shows "fst ` set (files v') = fst ` set (files v) \<union> (\<lambda>e. document_path f (snd e)) ` set es"
  using assms
proof (induction es arbitrary: v)
  case Nil
  then show ?case by simp
next
  case (Cons e es)
  from Cons.prems obtain b where b: "document_body (snd e) = Inr b"
    and rest: "create_documents f (vault_create v (document_path f (snd e)) b) es = (None, v')"
    by (cases "document_body (snd e)") auto
  from Cons.IH [OF rest] show ?case
    by (simp add: vault_create_def dom_put)
qed

lemma write_phase_result:
  "fst (write_phase st fd w) =
     (case fst (create_documents (highlightsFolder st)
                  (replace_folder (highlightsFolder st) (vault w)) (entries fd)) of
        None \<Rightarrow> Finished | Some err \<Rightarrow> Threw err)
   \<and> vault (snd (write_phase st fd w)) =
       snd (create_documents (highlightsFolder st)
              (replace_folder (highlightsFolder st) (vault w)) (entries fd))"
  by (simp add: write_phase_def notice_def split: prod.splits option.splits)

lemma write_phase_Finished:
  assumes "write_phase st fd w = (Finished, w')"
  shows "create_documents (highlightsFolder st)
           (replace_folder (highlightsFolder st) (vault w)) (entries fd) = (None, vault w')"
proof -
  obtain r v where c: "create_documents (highlightsFolder st)
           (replace_folder (highlightsFolder st) (vault w)) (entries fd) = (r, v)"
    by (cases "create_documents (highlightsFolder st)
           (replace_folder (highlightsFolder st) (vault w)) (entries fd)")
  with assms have "r = None" and "vault w' = v"
    by (auto simp: write_phase_def notice_def split: option.splits)
  with c show ?thesis by simp
qed

lemma sync_databases_shape:
  "\<exists>cs. (\<exists>out ns. out \<noteq> Finished \<and> (\<forall>w. sync_databases h st a b w =
             (out, w\<lparr>notices := notices w @ ns, commands := commands w @ cs\<rparr>)))
        \<or> (\<exists>fd. \<forall>w. sync_databases h st a b w =
             write_phase st fd (w\<lparr>commands := commands w @ cs\<rparr>))"
proof -
  let ?cmd1 = "sqlite_command a annotationDataSelectQuery"
  show ?thesis
  proof (cases "exec h ?cmd1")
    case None
    then have "\<forall>w. sync_databases h st a b w =
                 (Threw ExecError, w\<lparr>notices := notices w @ [], commands := commands w @ [?cmd1]\<rparr>)"
      by (simp add: sync_databases_def run_command_def)
    moreover have "Threw ExecError \<noteq> Finished" by simp
    ultimately show ?thesis by blast
  next
    case (Some stdout1)
    show ?thesis
    proof (cases "annotationData (parse_rows stdout1)")
      case (Inl err)
      with Some have "\<forall>w. sync_databases h st a b w =
                 (Threw err, w\<lparr>notices := notices w @ [], commands := commands w @ [?cmd1]\<rparr>)"
        by (simp add: sync_databases_def run_command_def)
      moreover have "Threw err \<noteq> Finished" by simp
      ultimately show ?thesis by blast
    next
      case (Inr ad)
      let ?cmd2 = "sqlite_command b (booksDataSelectQuery ad)"
      show ?thesis
      proof (cases "exec h ?cmd2")
        case None
        with Some Inr have "\<forall>w. sync_databases h st a b w =
                 (Threw ExecError,
                  w\<lparr>notices := notices w @ [], commands := commands w @ [?cmd1, ?cmd2]\<rparr>)"
          by (simp add: sync_databases_def run_command_def)
        moreover have "Threw ExecError \<noteq> Finished" by simp
        ultimately show ?thesis by blast
      next
        case (Some stdout2)
        with \<open>exec h ?cmd1 = Some stdout1\<close> Inr
        have "\<forall>w. sync_databases h st a b w =
                write_phase st (finalData ad (parse_rows stdout2))
                  (w\<lparr>commands := commands w @ [?cmd1, ?cmd2]\<rparr>)"
          by (simp add: sync_databases_def run_command_def)
        then show ?thesis by blast
      qed
    qed
  qed
qed

lemma syncHighlights_shape:
  "\<exists>cs. (\<exists>out ns. out \<noteq> Finished \<and> (\<forall>w. syncHighlights h st w =
             (out, w\<lparr>notices := notices w @ ns, commands := commands w @ cs\<rparr>)))
        \<or> (\<exists>fd. \<forall>w. syncHighlights h st w =
             write_phase st fd (w\<lparr>commands := commands w @ cs\<rparr>))"
proof (cases "db_file_name h (ANNOTATION_DB_FOLDER_ABSOLUTE_PATH h)")
  case None
  then have "\<forall>w. syncHighlights h st w =
               (NotFound,
                w\<lparr>notices := notices w @ [''Apple Books Annotation Database not found, cannot sync.''],
                  commands := commands w @ []\<rparr>)"
    by (simp add: syncHighlights_def notice_def)
  moreover have "NotFound \<noteq> Finished" by simp
  ultimately show ?thesis by blast
next
  case a: (Some a)
  show ?thesis
  proof (cases "db_file_name h (BOOKS_DB_FOLDER_ABSOLUTE_PATH h)")
    case None
    with a have "\<forall>w. syncHighlights h st w =
               (NotFound,
                w\<lparr>notices := notices w @ [''Apple Books Books Database not found, cannot sync.''],
                  commands := commands w @ []\<rparr>)"
      by (simp add: syncHighlights_def notice_def)
    moreover have "NotFound \<noteq> Finished" by simp
    ultimately show ?thesis by blast
  next
    case (Some b)
    with a have "syncHighlights h st w =
                   sync_databases h st
                     (path_join h (ANNOTATION_DB_FOLDER_ABSOLUTE_PATH h) a)
                     (path_join h (BOOKS_DB_FOLDER_ABSOLUTE_PATH h) b) w" for w
      by (simp add: syncHighlights_def)
    with sync_databases_shape [of h st "path_join h (ANNOTATION_DB_FOLDER_ABSOLUTE_PATH h) a"
        "path_join h (BOOKS_DB_FOLDER_ABSOLUTE_PATH h) b"]
    show ?thesis by simp
  qed
qed

lemma finished_run_writes:
  assumes "syncHighlights h st w = (Finished, w')"
  shows "\<exists>fd cs. write_phase st fd (w\<lparr>commands := commands w @ cs\<rparr>) = (Finished, w')"
proof -
  from syncHighlights_shape [of h st] obtain cs where
    "(\<exists>out ns. out \<noteq> Finished \<and> (\<forall>w. syncHighlights h st w =
             (out, w\<lparr>notices := notices w @ ns, commands := commands w @ cs\<rparr>)))
        \<or> (\<exists>fd. \<forall>w. syncHighlights h st w =
             write_phase st fd (w\<lparr>commands := commands w @ cs\<rparr>))"
    by blast
  then show ?thesis
  proof
    assume "\<exists>out ns. out \<noteq> Finished \<and> (\<forall>w. syncHighlights h st w =
             (out, w\<lparr>notices := notices w @ ns, commands := commands w @ cs\<rparr>))"
    with assms show ?thesis by auto
  next
    assume "\<exists>fd. \<forall>w. syncHighlights h st w =
             write_phase st fd (w\<lparr>commands := commands w @ cs\<rparr>)"
    with assms show ?thesis by metis
  qed
qed

lemma write_phase_twice:
  "fst (write_phase st fd w1) = fst (write_phase st fd w)
   \<and> vault (snd (write_phase st fd w1)) = vault (snd (write_phase st fd w))"
  if "vault w1 = vault (snd (write_phase st fd w))"
proof -
  let ?f = "highlightsFolder st"
  obtain r v' where c: "create_documents ?f (replace_folder ?f (vault w)) (entries fd) = (r, v')"
    by (cases "create_documents ?f (replace_folder ?f (vault w)) (entries fd)")
  then have v1: "vault w1 = v'" using that by (simp add: write_phase_result)
  from c have "create_documents ?f (replace_folder ?f v') (entries fd) = (r, v')"
    by (rule create_documents_again)
  with c v1 show ?thesis by (simp add: write_phase_result)
qed

lemma write_phase_any_start:
  "fst (write_phase st fd w) = fst (write_phase st fd w')
   \<and> filter (\<lambda>e. inside (highlightsFolder st) (fst e)) (files (vault (snd (write_phase st fd w))))
     = filter (\<lambda>e. inside (highlightsFolder st) (fst e)) (files (vault (snd (write_phase st fd w'))))"
proof -
  let ?f = "highlightsFolder st"
  have "filter (\<lambda>e. inside ?f (fst e)) (files (replace_folder ?f v)) = []" for v
    by (simp add: files_replace_folder at_or_inside_def filter_empty_conv)
  then have "filter (\<lambda>e. inside ?f (fst e)) (files (replace_folder ?f (vault w)))
           = filter (\<lambda>e. inside ?f (fst e)) (files (replace_folder ?f (vault w')))"
    by simp
  from files_inside_create_documents [OF this, of "entries fd"] show ?thesis
    by (simp add: write_phase_result)
qed

text \<open>
  C7. With the same listings and the same query results, a second run ends as the first
  one did and leaves the vault the first one left, whatever the vault was before the
  first run: the same files with the same contents. When a run finishes, the documents
  in the destination folder are the same from any other starting vault.
\<close>

theorem sync_twice:
  "fst (syncHighlights h st (snd (syncHighlights h st w))) = fst (syncHighlights h st w)
   \<and> vault (snd (syncHighlights h st (snd (syncHighlights h st w))))
       = vault (snd (syncHighlights h st w))
   \<and> (fst (syncHighlights h st w) = Finished \<longrightarrow>
        fst (syncHighlights h st w') = Finished
        \<and> filter (\<lambda>e. inside (highlightsFolder st) (fst e))
            (files (vault (snd (syncHighlights h st w'))))
          = filter (\<lambda>e. inside (highlightsFolder st) (fst e))
              (files (vault (snd (syncHighlights h st w)))))"
proof -
  from syncHighlights_shape [of h st] obtain cs where
    "(\<exists>out ns. out \<noteq> Finished \<and> (\<forall>w. syncHighlights h st w =
             (out, w\<lparr>notices := notices w @ ns, commands := commands w @ cs\<rparr>)))
        \<or> (\<exists>fd. \<forall>w. syncHighlights h st w =
             write_phase st fd (w\<lparr>commands := commands w @ cs\<rparr>))"
    by blast
  then show ?thesis
  proof
    assume "\<exists>out ns. out \<noteq> Finished \<and> (\<forall>w. syncHighlights h st w =
             (out, w\<lparr>notices := notices w @ ns, commands := commands w @ cs\<rparr>))"
    then obtain out ns where "out \<noteq> Finished" and s: "\<And>w. syncHighlights h st w =
             (out, w\<lparr>notices := notices w @ ns, commands := commands w @ cs\<rparr>)"
      by blast
    then show ?thesis by (simp add: s)
  next
    assume "\<exists>fd. \<forall>w. syncHighlights h st w =
             write_phase st fd (w\<lparr>commands := commands w @ cs\<rparr>)"
    then obtain fd where s: "\<And>w. syncHighlights h st w =
             write_phase st fd (w\<lparr>commands := commands w @ cs\<rparr>)"
      by blast
    let ?w0 = "w\<lparr>commands := commands w @ cs\<rparr>"
    let ?w1 = "(snd (write_phase st fd ?w0))\<lparr>commands := commands (snd (write_phase st fd ?w0)) @ cs\<rparr>"
    have "vault ?w1 = vault (snd (write_phase st fd ?w0))" by simp
    from write_phase_twice [OF this]
    have twice: "fst (write_phase st fd ?w1) = fst (write_phase st fd ?w0)"
      "vault (snd (write_phase st fd ?w1)) = vault (snd (write_phase st fd ?w0))"
      by simp_all
    from write_phase_any_start [of st fd "w'\<lparr>commands := commands w' @ cs\<rparr>" ?w0]
    have "fst (syncHighlights h st w') = fst (syncHighlights h st w)"
      and "filter (\<lambda>e. inside (highlightsFolder st) (fst e))
            (files (vault (snd (syncHighlights h st w'))))
          = filter (\<lambda>e. inside (highlightsFolder st) (fst e))
              (files (vault (snd (syncHighlights h st w))))"
      by (simp_all add: s)
    with twice show ?thesis by (simp add: s)
  qed
qed

lemma distinct_inside_create_documents:
  "distinct (map fst (filter (\<lambda>e. inside f (fst e)) (files v))) \<Longrightarrow>
   distinct (map fst (filter (\<lambda>e. inside f (fst e)) (files (snd (create_documents f v es)))))"
proof (induction es arbitrary: v)
  case Nil
  then show ?case by simp
next
  case (Cons e es)
  show ?case
  proof (cases "document_body (snd e)")
    case (Inl err)
    with Cons.prems show ?thesis by simp
  next
    case (Inr b)
    let ?p = "document_path f (snd e)"
    have "distinct (map fst (filter (\<lambda>e. inside f (fst e)) (files (vault_create v ?p b))))"
      using Cons.prems
      by (simp add: vault_create_def filter_put_inside inside_document_path distinct_put)
    from Cons.IH [OF this] Inr show ?thesis by simp
  qed
qed

lemma nothing_inside_replaced:
  "filter (\<lambda>e. inside f (fst e)) (files (replace_folder f v)) = []"
  by (simp add: files_replace_folder at_or_inside_def filter_empty_conv)

lemma last_filter_index:
  "filter P es \<noteq> [] \<Longrightarrow>
   \<exists>k<length es. es ! k = last (filter P es) \<and> P (es ! k)
      \<and> (\<forall>m. k < m \<and> m < length es \<longrightarrow> \<not> P (es ! m))"
proof (induction es rule: rev_induct)
  case Nil
  then show ?case by simp
next
  case (snoc e es)
  show ?case
  proof (cases "P e")
    case True
    then have "(es @ [e]) ! length es = last (filter P (es @ [e])) \<and> P ((es @ [e]) ! length es)
         \<and> (\<forall>m. length es < m \<and> m < length (es @ [e]) \<longrightarrow> \<not> P ((es @ [e]) ! m))"
      by auto
    then show ?thesis by (intro exI [of _ "length es"]) simp
  next
    case False
    with snoc.prems have "filter P es \<noteq> []" by simp
    from snoc.IH [OF this] obtain k where k: "k < length es" "es ! k = last (filter P es)"
      "P (es ! k)" "\<forall>m. k < m \<and> m < length es \<longrightarrow> \<not> P (es ! m)"
      by blast
    have "\<forall>m. k < m \<and> m < length (es @ [e]) \<longrightarrow> \<not> P ((es @ [e]) ! m)"
    proof (intro allI impI)
      fix m assume m: "k < m \<and> m < length (es @ [e])"
      show "\<not> P ((es @ [e]) ! m)"
      proof (cases "m < length es")
        case True
        with k(4) m show ?thesis by (simp add: nth_append)
      next
        case False
        with m have "m = length es" by simp
        with \<open>\<not> P e\<close> show ?thesis by simp
      qed
    qed
    with k False show ?thesis
      by (intro exI [of _ k]) (simp add: nth_append)
  qed
qed

lemma one_entry_per_key:
  "distinct (map fst L) \<Longrightarrow> p \<in> fst ` set L \<Longrightarrow> length (filter (\<lambda>e. fst e = p) L) = 1"
proof (induction L)
  case Nil
  then show ?case by simp
next
  case (Cons x L)
  show ?case
  proof (cases "fst x = p")
    case True
    with Cons.prems(1) have "p \<notin> fst ` set L" by auto
    then have "\<forall>e\<in>set L. fst e \<noteq> p" by (metis image_eqI)
    then have "filter (\<lambda>e. fst e = p) L = []"
      by (simp add: filter_empty_conv)
    with True show ?thesis by simp
  next
    case False
    with Cons show ?thesis by auto
  qed
qed

text \<open>
  The write phase (lines 181-201) on its own. It first replaces the destination folder:
  whatever the vault held at or inside its path is gone and the folder is there, empty.
  When the phase finishes, the folder is in the vault with no folder inside it; the
  files inside it are exactly the documents of the books, one file for a path, holding
  the body of a book with that path; the files outside the folder are the ones the
  vault had.
\<close>

lemma write_phase_replaces:
  assumes "write_phase st fd w = (Finished, w')"
    and "f = highlightsFolder st"
  shows "f \<in> set (folders (replace_folder f (vault w)))
         \<and> (\<forall>p\<in>set (folders (replace_folder f (vault w))
                      @ map fst (files (replace_folder f (vault w)))). \<not> inside f p)
         \<and> f \<in> set (folders (vault w'))
         \<and> (\<forall>d\<in>set (folders (vault w')). \<not> inside f d)
         \<and> {p \<in> fst ` set (files (vault w')). inside f p}
             = (\<lambda>e. document_path f (snd e)) ` set (entries fd)
         \<and> distinct (map fst (filter (\<lambda>e. inside f (fst e)) (files (vault w'))))
         \<and> (\<forall>p b. inside f p \<and> map_of (files (vault w')) p = Some b \<longrightarrow>
               (\<exists>e\<in>set (entries fd). document_path f (snd e) = p
                   \<and> document_body (snd e) = Inr b))
         \<and> filter (\<lambda>e. \<not> at_or_inside f (fst e)) (files (vault w'))
             = filter (\<lambda>e. \<not> at_or_inside f (fst e)) (files (vault w))"
proof -
  let ?v0 = "replace_folder f (vault w)"
  let ?v' = "vault w'"
  let ?es = "entries fd"
  from write_phase_Finished [OF assms(1)] assms(2)
  have c: "create_documents f ?v0 ?es = (None, ?v')" by simp
  then have v': "?v' = snd (create_documents f ?v0 ?es)" by simp
  have fo0: "folders ?v0 = filter (\<lambda>d. \<not> at_or_inside f d) (folders (vault w)) @ [f]"
    by (rule folders_replace_folder)
  have fi0: "files ?v0 = filter (\<lambda>e. \<not> at_or_inside f (fst e)) (files (vault w))"
    by (rule files_replace_folder)
  have fo': "folders ?v' = folders ?v0"
    by (simp only: v' folders_create_documents)
  have a1: "f \<in> set (folders ?v0)" by (simp add: fo0)
  have a2: "\<forall>p\<in>set (folders ?v0 @ map fst (files ?v0)). \<not> inside f p"
    by (auto simp: fo0 fi0 at_or_inside_def not_inside_self)
  have a3: "f \<in> set (folders ?v')" by (simp add: fo' fo0)
  have a4: "\<forall>d\<in>set (folders ?v'). \<not> inside f d"
    using a2 by (simp add: fo')
  have none0: "\<forall>p\<in>fst ` set (files ?v0). \<not> inside f p"
    using a2 by auto
  have a5: "{p \<in> fst ` set (files ?v'). inside f p} = (\<lambda>e. document_path f (snd e)) ` set ?es"
    using none0 by (auto simp: keys_create_documents [OF c] inside_document_path)
  have a6: "distinct (map fst (filter (\<lambda>e. inside f (fst e)) (files ?v')))"
    unfolding v' by (rule distinct_inside_create_documents) (simp add: nothing_inside_replaced)
  have a7: "\<exists>e\<in>set ?es. document_path f (snd e) = p \<and> document_body (snd e) = Inr b"
    if "inside f p" and "map_of (files ?v') p = Some b" for p b
  proof -
    let ?xs = "filter (\<lambda>e. document_path f (snd e) = p) ?es"
    from that(1) none0 have "map_of (files ?v0) p = None"
      by (auto simp: map_of_eq_None_iff)
    with that(2) map_of_create_documents [OF c, of p] have ne: "?xs \<noteq> []"
      by (auto split: if_splits)
    then have "last ?xs \<in> set ?xs" by (rule last_in_set)
    then have l: "last ?xs \<in> set ?es" "document_path f (snd (last ?xs)) = p" by auto
    with all_rendered [OF c] obtain b' where b': "document_body (snd (last ?xs)) = Inr b'" by blast
    with that(2) map_of_create_documents [OF c, of p] ne have "b' = b" by simp
    with l b' show ?thesis by blast
  qed
  have a8: "filter (\<lambda>e. \<not> at_or_inside f (fst e)) (files ?v')
             = filter (\<lambda>e. \<not> at_or_inside f (fst e)) (files (vault w))"
    by (simp add: v' files_outside_create_documents fi0)
  from a1 a2 a3 a4 a5 a6 a7 a8 show ?thesis by blast
qed

text \<open>
  C8. Two books of the join with one title have one document path. When the write phase
  finishes, the vault holds one file at that path, and its content is the body of a
  book written after the first of the two: the document of the earlier book has been
  overwritten.
\<close>

theorem same_title_collision:
  assumes "write_phase st fd w = (Finished, w')"
    and "f = highlightsFolder st"
    and "es = entries fd"
    and "i < j" and "j < length es"
    and "bookTitle (snd (es ! i)) = bookTitle (snd (es ! j))"
  shows "document_path f (snd (es ! i)) = document_path f (snd (es ! j))
         \<and> (\<exists>k b. i < k \<and> k < length es
               \<and> document_path f (snd (es ! k)) = document_path f (snd (es ! i))
               \<and> document_body (snd (es ! k)) = Inr b
               \<and> map_of (files (vault w')) (document_path f (snd (es ! i))) = Some b)
         \<and> length (filter (\<lambda>e. fst e = document_path f (snd (es ! i))) (files (vault w'))) = 1"
proof -
  let ?v0 = "replace_folder f (vault w)"
  let ?v' = "vault w'"
  let ?p = "document_path f (snd (es ! i))"
  let ?P = "\<lambda>e. document_path f (snd e) = ?p"
  from write_phase_Finished [OF assms(1)] assms(2,3)
  have c: "create_documents f ?v0 es = (None, ?v')" by simp
  then have v': "?v' = snd (create_documents f ?v0 es)" by simp
  from assms(6) have same: "?p = document_path f (snd (es ! j))"
    by (simp add: document_path_def)
  from assms(5) have "es ! j \<in> set es" by simp
  with same have ne: "filter ?P es \<noteq> []"
    by (auto simp: filter_empty_conv)
  from last_filter_index [OF ne] obtain k where k: "k < length es"
    "es ! k = last (filter ?P es)" "?P (es ! k)"
    "\<forall>m. k < m \<and> m < length es \<longrightarrow> \<not> ?P (es ! m)"
    by blast
  have "j \<le> k"
  proof (rule ccontr)
    assume "\<not> j \<le> k"
    with k(4) assms(5) have "\<not> ?P (es ! j)" by simp
    with same show False by simp
  qed
  with assms(4) have ik: "i < k" by simp
  from k(1) have "es ! k \<in> set es" by simp
  with all_rendered [OF c] obtain b where b: "document_body (snd (es ! k)) = Inr b" by blast
  with map_of_create_documents [OF c, of ?p] ne k(2)
  have stored: "map_of (files ?v') ?p = Some b" by simp
  have d: "distinct (map fst (filter (\<lambda>e. inside f (fst e)) (files ?v')))"
    unfolding v' by (rule distinct_inside_create_documents) (simp add: nothing_inside_replaced)
  from stored have "(?p, b) \<in> set (files ?v')"
    by (rule map_of_SomeD)
  then have "(?p, b) \<in> set (filter (\<lambda>e. inside f (fst e)) (files ?v'))"
    by (simp add: inside_document_path)
  then have "?p \<in> fst ` set (filter (\<lambda>e. inside f (fst e)) (files ?v'))"
    by (rule image_eqI [rotated]) simp
  with d have "length (filter (\<lambda>e. fst e = ?p) (filter (\<lambda>e. inside f (fst e)) (files ?v'))) = 1"
    by (rule one_entry_per_key)
  moreover have "filter (\<lambda>e. fst e = ?p) (filter (\<lambda>e. inside f (fst e)) (files ?v'))
                   = filter (\<lambda>e. fst e = ?p) (files ?v')"
    by (auto simp: inside_document_path intro: filter_cong)
  ultimately have one: "length (filter (\<lambda>e. fst e = ?p) (files ?v')) = 1" by simp
  from same ik k(1,3) b stored one show ?thesis by blast
qed

lemma scenario_body:
  "document_body scenario_book =
     Inr ''## Metadata\<newline>- Author: Jane Doe\<newline>- [Apple Books Link](ibooks://assetid/B1)\<newline>\<newline>## Highlights\<newline>Great quote\<newline>\<newline>---\<newline>Another line''"
  by (simp add: document_body_def scenario_book_def scenario_highlights_def to_string_def
      join_item_def highlight_separator_def)

lemma scenario_path:
  "document_path ''Apple Books Highlights'' scenario_book = ''Apple Books Highlights/My Book.md''"
  by (simp add: document_path_def scenario_book_def to_string_def)

lemma scenario_entries: "entries [(''B1'', scenario_book)] = [(''B1'', scenario_book)]"
  by (simp add: entries_def not_index_B1)

lemma scenario_write:
  "write_phase default_settings [(''B1'', scenario_book)] w =
     (Finished,
      w\<lparr>vault := snd (create_documents ''Apple Books Highlights''
                      (replace_folder ''Apple Books Highlights'' (vault w))
                      [(''B1'', scenario_book)]),
        notices := notices w @ [''Successfully finished Apple Books Highlight Sync'']\<rparr>)"
  by (simp add: write_phase_def scenario_entries default_settings_def scenario_body notice_def)

lemma scenario_vault:
  "snd (create_documents ''Apple Books Highlights''
          (replace_folder ''Apple Books Highlights'' vault_with_notes)
          [(''B1'', scenario_book)]) = vault_after_scenario"
  by (simp add: replace_example scenario_body scenario_path vault_create_def
      vault_after_scenario_def)

lemma scenario_annotation_output:
  "parse_rows ''B1|||A1|||Great quote@@@B1|||A2|||Another line@@@'' = scenario_annotation_rows"
  by (simp add: parse_rows_def raw_rows_def js_split_def row_separator_def
      field_separator_def scenario_annotation_rows_def)

lemma scenario_catalog_output:
  "parse_rows ''B1|||Jane Doe|||My Book@@@'' = scenario_catalog_rows"
  by (simp add: parse_rows_def raw_rows_def js_split_def row_separator_def
      field_separator_def scenario_catalog_rows_def)

lemma scenario_finalData:
  "finalData [(''B1'', scenario_highlights)] scenario_catalog_rows = [(''B1'', scenario_book)]"
  by (simp add: finalData_def scenario_catalog_rows_def join_step_def row_key_def nth_opt_def
      to_string_def js_get_def js_set_def synced_book_def scenario_book_def Let_def)

lemma scenario_files:
  "db_file_name host_with_one_book d = Some ''library.sqlite''"
  by (simp add: db_file_name_def folder_files_def host_with_one_book_def one_database_def
      endsWith_def first_def suffix_def)

lemma scenario_annotation_path:
  "path_join host_with_one_book (ANNOTATION_DB_FOLDER_ABSOLUTE_PATH host_with_one_book)
     ''library.sqlite'' =
   ''/Users/reader/Library/Containers/com.apple.iBooksX/Data/Documents/AEAnnotation/library.sqlite''"
  by (simp add: ANNOTATION_DB_FOLDER_ABSOLUTE_PATH_def APPLE_BOOKS_DATA_FOLDER_ABSOLUTE_PATH_def
      host_with_one_book_def slash_join_def to_string_def)

lemma scenario_books_path:
  "path_join host_with_one_book (BOOKS_DB_FOLDER_ABSOLUTE_PATH host_with_one_book)
     ''library.sqlite'' =
   ''/Users/reader/Library/Containers/com.apple.iBooksX/Data/Documents/BKLibrary/library.sqlite''"
  by (simp add: BOOKS_DB_FOLDER_ABSOLUTE_PATH_def APPLE_BOOKS_DATA_FOLDER_ABSOLUTE_PATH_def
      host_with_one_book_def slash_join_def to_string_def)

lemma scenario_first_query:
  "exec host_with_one_book scenario_annotation_command =
     Some ''B1|||A1|||Great quote@@@B1|||A2|||Another line@@@''"
  by (simp add: host_with_one_book_def scenario_exec_def)

lemma scenario_second_query:
  "exec host_with_one_book
     (sqlite_command
        ''/Users/reader/Library/Containers/com.apple.iBooksX/Data/Documents/BKLibrary/library.sqlite''
        q) = Some ''B1|||Jane Doe|||My Book@@@''"
proof -
  have "sqlite_command
        ''/Users/reader/Library/Containers/com.apple.iBooksX/Data/Documents/BKLibrary/library.sqlite''
        q \<noteq> scenario_annotation_command"
    by (simp add: scenario_annotation_command_def sqlite_command_def)
  then show ?thesis by (simp add: host_with_one_book_def scenario_exec_def)
qed

lemma scenario_run:
  "syncHighlights host_with_one_book default_settings w =
     write_phase default_settings [(''B1'', scenario_book)]
       (run_command
          (sqlite_command
             ''/Users/reader/Library/Containers/com.apple.iBooksX/Data/Documents/BKLibrary/library.sqlite''
             (booksDataSelectQuery [(''B1'', scenario_highlights)]))
          (run_command scenario_annotation_command w))"
proof -
  have "syncHighlights host_with_one_book default_settings w =
          sync_databases host_with_one_book default_settings
            ''/Users/reader/Library/Containers/com.apple.iBooksX/Data/Documents/AEAnnotation/library.sqlite''
            ''/Users/reader/Library/Containers/com.apple.iBooksX/Data/Documents/BKLibrary/library.sqlite''
            w"
    by (simp only: syncHighlights_def scenario_files option.case scenario_annotation_path
        scenario_books_path)
  also have "\<dots> = write_phase default_settings [(''B1'', scenario_book)]
       (run_command
          (sqlite_command
             ''/Users/reader/Library/Containers/com.apple.iBooksX/Data/Documents/BKLibrary/library.sqlite''
             (booksDataSelectQuery [(''B1'', scenario_highlights)]))
          (run_command scenario_annotation_command w))"
    by (simp only: sync_databases_def Let_def scenario_annotation_command_def [symmetric]
        scenario_first_query option.case scenario_annotation_output scenario_grouped sum.case
        scenario_second_query scenario_catalog_output scenario_finalData)
  finally show ?thesis .
qed

lemma scenario_outcome:
  "fst (syncHighlights host_with_one_book default_settings w) = Finished"
  by (simp add: scenario_run scenario_write)

lemma scenario_result:
  "vault (snd (syncHighlights host_with_one_book default_settings world_with_notes)) =
     vault_after_scenario"
proof -
  have "vault (run_command c2 (run_command c1 world_with_notes)) = vault_with_notes" for c1 c2
    by (simp add: run_command_def world_with_notes_def)
  then show ?thesis
    by (simp add: scenario_run scenario_write scenario_vault del: create_documents.simps)
qed

theorem sync_twice_witness:
  "fst (syncHighlights host_with_one_book default_settings world_with_notes) = Finished
   \<and> vault (snd (syncHighlights host_with_one_book default_settings
        (snd (syncHighlights host_with_one_book default_settings world_with_notes)))) =
       vault_after_scenario
   \<and> filter (\<lambda>e. inside ''Apple Books Highlights'' (fst e))
       (files (vault (snd (syncHighlights host_with_one_book default_settings empty_world)))) =
       filter (\<lambda>e. inside ''Apple Books Highlights'' (fst e)) (files vault_after_scenario)"
proof -
  note t = sync_twice [of host_with_one_book default_settings world_with_notes empty_world]
  have f: "highlightsFolder default_settings = ''Apple Books Highlights''"
    by (simp add: default_settings_def)
  from t have "vault (snd (syncHighlights host_with_one_book default_settings
        (snd (syncHighlights host_with_one_book default_settings world_with_notes)))) =
      vault (snd (syncHighlights host_with_one_book default_settings world_with_notes))"
    by blast
  then have again: "vault (snd (syncHighlights host_with_one_book default_settings
        (snd (syncHighlights host_with_one_book default_settings world_with_notes)))) =
       vault_after_scenario"
    by (simp only: scenario_result)
  from t scenario_outcome [of world_with_notes]
  have "filter (\<lambda>e. inside (highlightsFolder default_settings) (fst e))
          (files (vault (snd (syncHighlights host_with_one_book default_settings empty_world))))
        = filter (\<lambda>e. inside (highlightsFolder default_settings) (fst e))
            (files (vault (snd (syncHighlights host_with_one_book default_settings
               world_with_notes))))"
    by blast
  then have any: "filter (\<lambda>e. inside ''Apple Books Highlights'' (fst e))
       (files (vault (snd (syncHighlights host_with_one_book default_settings empty_world)))) =
       filter (\<lambda>e. inside ''Apple Books Highlights'' (fst e)) (files vault_after_scenario)"
    by (simp only: f scenario_result)
  from scenario_outcome [of world_with_notes] again any show ?thesis by (intro conjI)
qed

lemma twin_entries: "entries twin_books = twin_books"
proof -
  have "\<not> is_array_index ''B1''" "\<not> is_array_index ''B2''"
    by (simp_all add: is_array_index_def is_digit_def)
  then show ?thesis by (simp add: entries_def twin_books_def)
qed

lemma twin_write:
  "write_phase default_settings twin_books world_with_notes =
     (Finished,
      world_with_notes\<lparr>vault :=
          \<lparr>folders = [''Apple Books Highlights''],
           files =
             [(''Inbox.md'', ''keep''),
              (''Apple Books Highlights/Essays.md'',
               ''## Metadata\<newline>- Author: John Roe\<newline>- [Apple Books Link](ibooks://assetid/B2)\<newline>\<newline>## Highlights\<newline>Two'')]\<rparr>,
        notices := [''Successfully finished Apple Books Highlight Sync'']\<rparr>)"
proof -
  have v: "vault world_with_notes = vault_with_notes" "notices world_with_notes = []"
    "highlightsFolder default_settings = ''Apple Books Highlights''"
    by (simp_all add: world_with_notes_def default_settings_def)
  have "create_documents ''Apple Books Highlights''
          (replace_folder ''Apple Books Highlights'' vault_with_notes) twin_books =
        (None,
         \<lparr>folders = [''Apple Books Highlights''],
          files =
            [(''Inbox.md'', ''keep''),
             (''Apple Books Highlights/Essays.md'',
              ''## Metadata\<newline>- Author: John Roe\<newline>- [Apple Books Link](ibooks://assetid/B2)\<newline>\<newline>## Highlights\<newline>Two'')]\<rparr>)"
    by (simp add: replace_example twin_books_def document_body_def document_path_def
        to_string_def join_item_def vault_create_def)
  then show ?thesis
    by (simp add: write_phase_def twin_entries v notice_def del: create_documents.simps)
qed

theorem same_title_collision_witness:
  "map_of (files (vault (snd (write_phase default_settings twin_books world_with_notes))))
     ''Apple Books Highlights/Essays.md'' =
   Some ''## Metadata\<newline>- Author: John Roe\<newline>- [Apple Books Link](ibooks://assetid/B2)\<newline>\<newline>## Highlights\<newline>Two''
   \<and> length (filter (\<lambda>e. fst e = ''Apple Books Highlights/Essays.md'')
         (files (vault (snd (write_phase default_settings twin_books world_with_notes))))) = 1"
proof -
  let ?w' = "snd (write_phase default_settings twin_books world_with_notes)"
  have run: "write_phase default_settings twin_books world_with_notes = (Finished, ?w')"
    by (simp add: twin_write)
  have f: "''Apple Books Highlights'' = highlightsFolder default_settings"
    by (simp add: default_settings_def)
  have es: "twin_books = entries twin_books" by (simp add: twin_entries)
  have t: "bookTitle (snd (twin_books ! 0)) = bookTitle (snd (twin_books ! 1))"
    by (simp add: twin_books_def)
  have l: "(1::nat) < length twin_books" by (simp add: twin_books_def)
  have p: "document_path ''Apple Books Highlights'' (snd (twin_books ! 0)) =
             ''Apple Books Highlights/Essays.md''"
    by (simp add: twin_books_def document_path_def to_string_def)
  note c = same_title_collision [OF run f es zero_less_one l t]
  from c obtain k b where k: "0 < k" "k < length twin_books"
    and b: "document_body (snd (twin_books ! k)) = Inr b"
    and m: "map_of (files (vault ?w')) (document_path ''Apple Books Highlights''
              (snd (twin_books ! 0))) = Some b"
    by blast
  from k have "k = 1" by (simp add: twin_books_def)
  with b have "b = ''## Metadata\<newline>- Author: John Roe\<newline>- [Apple Books Link](ibooks://assetid/B2)\<newline>\<newline>## Highlights\<newline>Two''"
    by (simp add: twin_books_def document_body_def to_string_def join_item_def)
  with m have stored: "map_of (files (vault ?w')) ''Apple Books Highlights/Essays.md'' =
     Some ''## Metadata\<newline>- Author: John Roe\<newline>- [Apple Books Link](ibooks://assetid/B2)\<newline>\<newline>## Highlights\<newline>Two''"
    by (simp only: p)
  from c have "length (filter (\<lambda>e. fst e = document_path ''Apple Books Highlights''
                  (snd (twin_books ! 0))) (files (vault ?w'))) = 1"
    by blast
  then have one: "length (filter (\<lambda>e. fst e = ''Apple Books Highlights/Essays.md'')
                    (files (vault ?w'))) = 1"
    by (simp only: p)
  from stored one show ?thesis by (intro conjI)
qed

subsection \<open>The destination folder after a finished run\<close>

lemma documents_count:
  assumes "create_documents f (replace_folder f v) es = (None, v')"
  shows "length (filter (\<lambda>e. inside f (fst e)) (files v'))
           = card ((\<lambda>e. document_path f (snd e)) ` set es)"
proof -
  let ?L = "filter (\<lambda>e. inside f (fst e)) (files v')"
  from assms have v': "v' = snd (create_documents f (replace_folder f v) es)" by simp
  have d: "distinct (map fst ?L)"
    unfolding v' by (rule distinct_inside_create_documents) (simp add: nothing_inside_replaced)
  have none: "\<forall>p\<in>fst ` set (files (replace_folder f v)). \<not> inside f p"
    by (auto simp: files_replace_folder at_or_inside_def)
  have "set (map fst ?L) = {p \<in> fst ` set (files v'). inside f p}"
    by auto
  also have "\<dots> = (\<lambda>e. document_path f (snd e)) ` set es"
    using none by (auto simp: keys_create_documents [OF assms] inside_document_path)
  finally have s: "set (map fst ?L) = (\<lambda>e. document_path f (snd e)) ` set es" .
  have "length ?L = length (map fst ?L)" by simp
  also have "\<dots> = card (set (map fst ?L))"
    using d by (simp only: distinct_card)
  finally show ?thesis by (simp only: s)
qed

lemma distinct_titles_paths:
  assumes "distinct (map (\<lambda>e. to_string (bookTitle (snd e))) es)"
  shows "card ((\<lambda>e. document_path f (snd e)) ` set es) = length es"
proof -
  have "inj (\<lambda>t. f @ ''/'' @ t @ ''.md'')"
    by (rule injI) simp
  then have "distinct (map (\<lambda>t. f @ ''/'' @ t @ ''.md'')
               (map (\<lambda>e. to_string (bookTitle (snd e))) es))"
    using assms by (simp only: distinct_map) (auto intro: inj_on_subset)
  then have "distinct (map (\<lambda>e. document_path f (snd e)) es)"
    by (simp add: document_path_def comp_def)
  then have "card (set (map (\<lambda>e. document_path f (snd e)) es)) = length es"
    by (simp only: distinct_card length_map)
  then show ?thesis by simp
qed

lemma finished_run:
  assumes "syncHighlights h st w = (Finished, w')"
  shows "\<exists>a b stdout1 ad stdout2.
           db_file_name h (ANNOTATION_DB_FOLDER_ABSOLUTE_PATH h) = Some a
           \<and> db_file_name h (BOOKS_DB_FOLDER_ABSOLUTE_PATH h) = Some b
           \<and> exec h (sqlite_command (path_join h (ANNOTATION_DB_FOLDER_ABSOLUTE_PATH h) a)
                       annotationDataSelectQuery) = Some stdout1
           \<and> annotationData (parse_rows stdout1) = Inr ad
           \<and> exec h (sqlite_command (path_join h (BOOKS_DB_FOLDER_ABSOLUTE_PATH h) b)
                       (booksDataSelectQuery ad)) = Some stdout2"
  using assms
  by (auto simp: syncHighlights_def sync_databases_def Let_def
      split: option.splits sum.splits)

lemma run_is_write_phase:
  assumes "db_file_name h (ANNOTATION_DB_FOLDER_ABSOLUTE_PATH h) = Some a"
    and "db_file_name h (BOOKS_DB_FOLDER_ABSOLUTE_PATH h) = Some b"
    and "exec h (sqlite_command (path_join h (ANNOTATION_DB_FOLDER_ABSOLUTE_PATH h) a)
                   annotationDataSelectQuery) = Some stdout1"
    and "annotationData (parse_rows stdout1) = Inr ad"
    and "exec h (sqlite_command (path_join h (BOOKS_DB_FOLDER_ABSOLUTE_PATH h) b)
                   (booksDataSelectQuery ad)) = Some stdout2"
  shows "syncHighlights h st w =
           write_phase st (finalData ad (parse_rows stdout2))
             (run_command (sqlite_command (path_join h (BOOKS_DB_FOLDER_ABSOLUTE_PATH h) b)
                             (booksDataSelectQuery ad))
                (run_command (sqlite_command (path_join h (ANNOTATION_DB_FOLDER_ABSOLUTE_PATH h) a)
                                annotationDataSelectQuery) w))"
  using assms by (simp add: syncHighlights_def sync_databases_def Let_def)

text \<open>
  C3, amended. Take a run of \<open>syncHighlights\<close> that finishes, and let the books be
  those of its join, in the order they are written. The destination folder is first
  replaced: whatever the vault held at or inside its path is gone and the folder is
  there, empty. After the run the folder is in the vault with no folder inside it; the
  files inside it are exactly the documents of the books, each at the folder's path,
  \<open>/\<close>, the book's title and \<open>.md\<close>, one file for a path, holding the body of a
  book with that path; the files outside the folder are the ones the vault had. There
  are as many documents as the books have paths: exactly one document per book when the
  titles are pairwise distinct, one document for all the books of a title otherwise.
\<close>

theorem destination_replaced:
  assumes "syncHighlights h st w = (Finished, w')"
    and "db_file_name h (ANNOTATION_DB_FOLDER_ABSOLUTE_PATH h) = Some a"
    and "db_file_name h (BOOKS_DB_FOLDER_ABSOLUTE_PATH h) = Some b"
    and "exec h (sqlite_command (path_join h (ANNOTATION_DB_FOLDER_ABSOLUTE_PATH h) a)
                   annotationDataSelectQuery) = Some stdout1"
    and "annotationData (parse_rows stdout1) = Inr ad"
    and "exec h (sqlite_command (path_join h (BOOKS_DB_FOLDER_ABSOLUTE_PATH h) b)
                   (booksDataSelectQuery ad)) = Some stdout2"
    and "books = entries (finalData ad (parse_rows stdout2))"
    and "f = highlightsFolder st"
  shows "f \<in> set (folders (replace_folder f (vault w)))
         \<and> (\<forall>p\<in>set (folders (replace_folder f (vault w))
                      @ map fst (files (replace_folder f (vault w)))). \<not> inside f p)
         \<and> f \<in> set (folders (vault w'))
         \<and> (\<forall>d\<in>set (folders (vault w')). \<not> inside f d)
         \<and> {p \<in> fst ` set (files (vault w')). inside f p}
             = (\<lambda>e. document_path f (snd e)) ` set books
         \<and> distinct (map fst (filter (\<lambda>e. inside f (fst e)) (files (vault w'))))
         \<and> (\<forall>p body. inside f p \<and> map_of (files (vault w')) p = Some body \<longrightarrow>
               (\<exists>e\<in>set books. document_path f (snd e) = p
                   \<and> document_body (snd e) = Inr body))
         \<and> filter (\<lambda>e. \<not> at_or_inside f (fst e)) (files (vault w'))
             = filter (\<lambda>e. \<not> at_or_inside f (fst e)) (files (vault w))
         \<and> length (filter (\<lambda>e. inside f (fst e)) (files (vault w')))
             = card ((\<lambda>e. document_path f (snd e)) ` set books)
         \<and> (distinct (map (\<lambda>e. to_string (bookTitle (snd e))) books) \<longrightarrow>
               length (filter (\<lambda>e. inside f (fst e)) (files (vault w'))) = length books)"
proof -
  let ?fd = "finalData ad (parse_rows stdout2)"
  let ?w2 = "run_command (sqlite_command (path_join h (BOOKS_DB_FOLDER_ABSOLUTE_PATH h) b)
                             (booksDataSelectQuery ad))
                (run_command (sqlite_command (path_join h (ANNOTATION_DB_FOLDER_ABSOLUTE_PATH h) a)
                                annotationDataSelectQuery) w)"
  have v2: "vault ?w2 = vault w" by (simp add: run_command_def)
  have "write_phase st ?fd ?w2 = syncHighlights h st w"
    by (rule run_is_write_phase [OF assms(2-6), symmetric])
  also have "\<dots> = (Finished, w')" by (rule assms(1))
  finally have wp: "write_phase st ?fd ?w2 = (Finished, w')" .
  note r = write_phase_replaces [OF wp assms(8)]
  note r1 = r [THEN conjunct1] and t1 = r [THEN conjunct2]
  note r2 = t1 [THEN conjunct1] and t2 = t1 [THEN conjunct2]
  note r3 = t2 [THEN conjunct1] and t3 = t2 [THEN conjunct2]
  note r4 = t3 [THEN conjunct1] and t4 = t3 [THEN conjunct2]
  note r5 = t4 [THEN conjunct1] and t5 = t4 [THEN conjunct2]
  note r6 = t5 [THEN conjunct1] and t6 = t5 [THEN conjunct2]
  note r7 = t6 [THEN conjunct1] and r8 = t6 [THEN conjunct2]
  have b: "entries ?fd = books" by (simp only: assms(7))
  from r1 have c1: "f \<in> set (folders (replace_folder f (vault w)))"
    by (simp only: v2)
  from r2 have c2: "\<forall>p\<in>set (folders (replace_folder f (vault w))
                      @ map fst (files (replace_folder f (vault w)))). \<not> inside f p"
    by (simp only: v2)
  note c3 = r3 and c4 = r4 and c6 = r6
  from r5 have c5: "{p \<in> fst ` set (files (vault w')). inside f p}
             = (\<lambda>e. document_path f (snd e)) ` set books"
    by (simp only: b)
  from r7 have c7: "\<forall>p body. inside f p \<and> map_of (files (vault w')) p = Some body \<longrightarrow>
               (\<exists>e\<in>set books. document_path f (snd e) = p
                   \<and> document_body (snd e) = Inr body)"
    by (simp only: b)
  from r8 have c8: "filter (\<lambda>e. \<not> at_or_inside f (fst e)) (files (vault w'))
             = filter (\<lambda>e. \<not> at_or_inside f (fst e)) (files (vault w))"
    by (simp only: v2)
  from write_phase_Finished [OF wp]
  have c: "create_documents f (replace_folder f (vault w)) books = (None, vault w')"
    by (simp only: v2 b assms(8) [symmetric])
  have c9: "length (filter (\<lambda>e. inside f (fst e)) (files (vault w')))
             = card ((\<lambda>e. document_path f (snd e)) ` set books)"
    using c by (rule documents_count)
  have c10: "distinct (map (\<lambda>e. to_string (bookTitle (snd e))) books) \<longrightarrow>
               length (filter (\<lambda>e. inside f (fst e)) (files (vault w'))) = length books"
  proof
    assume "distinct (map (\<lambda>e. to_string (bookTitle (snd e))) books)"
    then have "card ((\<lambda>e. document_path f (snd e)) ` set books) = length books"
      by (rule distinct_titles_paths)
    with c9 show "length (filter (\<lambda>e. inside f (fst e)) (files (vault w'))) = length books"
      by (simp only:)
  qed
  from c1 c2 c3 c4 c5 c6 c7 c8 c9 c10 show ?thesis by (intro conjI)
qed

lemma twin_annotation_rows:
  "parse_rows twin_annotation_output = [[''B1'', ''A1'', ''One''], [''B2'', ''A2'', ''Two'']]"
  by (simp add: twin_annotation_output_def parse_rows_def raw_rows_def js_split_def
      row_separator_def field_separator_def)

lemma twin_catalog_rows:
  "parse_rows twin_catalog_output =
     [[''B1'', ''Jane Doe'', ''Essays''], [''B2'', ''John Roe'', ''Essays'']]"
  by (simp add: twin_catalog_output_def parse_rows_def raw_rows_def js_split_def
      row_separator_def field_separator_def)

lemma twin_grouping: "annotationData (parse_rows twin_annotation_output) = Inr twin_grouped"
  by (simp add: twin_annotation_rows annotationData_def group_step_def row_key_def
      nth_opt_def to_string_def js_get_def js_set_def object_prototype_names_def
      highlight_of_def twin_grouped_def)

lemma twin_join: "finalData twin_grouped (parse_rows twin_catalog_output) = twin_books"
  by (simp add: twin_catalog_rows finalData_def join_step_def row_key_def nth_opt_def
      to_string_def js_get_def js_set_def synced_book_def twin_grouped_def twin_books_def
      Let_def)

lemma twin_files: "db_file_name host_with_twins d = Some ''library.sqlite''"
  by (simp add: db_file_name_def folder_files_def host_with_twins_def one_database_def
      endsWith_def first_def suffix_def)

lemma twin_annotation_path:
  "sqlite_command
     (path_join host_with_twins (ANNOTATION_DB_FOLDER_ABSOLUTE_PATH host_with_twins)
        ''library.sqlite'') annotationDataSelectQuery = scenario_annotation_command"
  by (simp add: ANNOTATION_DB_FOLDER_ABSOLUTE_PATH_def APPLE_BOOKS_DATA_FOLDER_ABSOLUTE_PATH_def
      host_with_twins_def slash_join_def to_string_def scenario_annotation_command_def)

lemma twin_first_query:
  "exec host_with_twins scenario_annotation_command = Some twin_annotation_output"
  by (simp add: host_with_twins_def twin_exec_def)

lemma twin_second_query:
  "exec host_with_twins
     (sqlite_command
        (path_join host_with_twins (BOOKS_DB_FOLDER_ABSOLUTE_PATH host_with_twins)
           ''library.sqlite'') q) = Some twin_catalog_output"
proof -
  have "sqlite_command
        (path_join host_with_twins (BOOKS_DB_FOLDER_ABSOLUTE_PATH host_with_twins)
           ''library.sqlite'') q \<noteq> scenario_annotation_command"
    by (simp add: scenario_annotation_command_def sqlite_command_def
        BOOKS_DB_FOLDER_ABSOLUTE_PATH_def APPLE_BOOKS_DATA_FOLDER_ABSOLUTE_PATH_def
        host_with_twins_def slash_join_def to_string_def)
  then show ?thesis by (simp add: host_with_twins_def twin_exec_def)
qed

lemma twin_run:
  "syncHighlights host_with_twins default_settings w =
     write_phase default_settings twin_books
       (run_command
          (sqlite_command
             (path_join host_with_twins (BOOKS_DB_FOLDER_ABSOLUTE_PATH host_with_twins)
                ''library.sqlite'') (booksDataSelectQuery twin_grouped))
          (run_command scenario_annotation_command w))"
proof -
  have q1: "exec host_with_twins
              (sqlite_command
                 (path_join host_with_twins (ANNOTATION_DB_FOLDER_ABSOLUTE_PATH host_with_twins)
                    ''library.sqlite'') annotationDataSelectQuery) = Some twin_annotation_output"
    by (simp only: twin_annotation_path twin_first_query)
  from run_is_write_phase [OF twin_files twin_files q1 twin_grouping twin_second_query,
      of default_settings w]
  show ?thesis by (simp only: twin_annotation_path twin_join)
qed

lemma twin_result:
  "syncHighlights host_with_twins default_settings world_with_notes =
     (Finished,
      \<lparr>vault =
          \<lparr>folders = [''Apple Books Highlights''],
           files =
             [(''Inbox.md'', ''keep''),
              (''Apple Books Highlights/Essays.md'',
               ''## Metadata\<newline>- Author: John Roe\<newline>- [Apple Books Link](ibooks://assetid/B2)\<newline>\<newline>## Highlights\<newline>Two'')]\<rparr>,
       notices = [''Successfully finished Apple Books Highlight Sync''],
       commands =
         [scenario_annotation_command,
          sqlite_command
            (path_join host_with_twins (BOOKS_DB_FOLDER_ABSOLUTE_PATH host_with_twins)
               ''library.sqlite'') (booksDataSelectQuery twin_grouped)]\<rparr>)"
proof -
  have v: "highlightsFolder default_settings = ''Apple Books Highlights''"
    by (simp add: default_settings_def)
  have w: "run_command c2 (run_command c1 world_with_notes) =
             \<lparr>vault = vault_with_notes, notices = [], commands = [c1, c2]\<rparr>" for c1 c2
    by (simp add: run_command_def world_with_notes_def)
  have c: "create_documents ''Apple Books Highlights''
          (replace_folder ''Apple Books Highlights'' vault_with_notes) twin_books =
        (None,
         \<lparr>folders = [''Apple Books Highlights''],
          files =
            [(''Inbox.md'', ''keep''),
             (''Apple Books Highlights/Essays.md'',
              ''## Metadata\<newline>- Author: John Roe\<newline>- [Apple Books Link](ibooks://assetid/B2)\<newline>\<newline>## Highlights\<newline>Two'')]\<rparr>)"
    by (simp add: replace_example twin_books_def document_body_def document_path_def
        to_string_def join_item_def vault_create_def)
  show ?thesis
    by (simp add: twin_run w write_phase_def twin_entries v c notice_def
        del: create_documents.simps)
qed

text \<open>
  C3, as stated, fails on the count: with two books \<open>B1\<close> and \<open>B2\<close> of the one
  title \<open>Essays\<close> the run finishes, the join has two books, and the destination folder
  holds the one document \<open>Essays.md\<close>, with the body of \<open>B2\<close>.
\<close>

theorem destination_replaced_counterexample:
  "annotationData (parse_rows twin_annotation_output) = Inr twin_grouped
   \<and> entries (finalData twin_grouped (parse_rows twin_catalog_output)) = twin_books
   \<and> length twin_books = 2
   \<and> fst (syncHighlights host_with_twins default_settings world_with_notes) = Finished
   \<and> files (vault (snd (syncHighlights host_with_twins default_settings world_with_notes))) =
       [(''Inbox.md'', ''keep''),
        (''Apple Books Highlights/Essays.md'',
         ''## Metadata\<newline>- Author: John Roe\<newline>- [Apple Books Link](ibooks://assetid/B2)\<newline>\<newline>## Highlights\<newline>Two'')]"
proof -
  have "length twin_books = 2" by (simp add: twin_books_def)
  with twin_grouping twin_join twin_entries show ?thesis
    by (simp add: twin_result)
qed

theorem destination_replaced_witness:
  "fst (syncHighlights host_with_one_book default_settings world_with_notes) = Finished
   \<and> ''Apple Books Highlights'' \<in> set (folders vault_after_scenario)
   \<and> {p \<in> fst ` set (files vault_after_scenario). inside ''Apple Books Highlights'' p} =
       {''Apple Books Highlights/My Book.md''}
   \<and> length (filter (\<lambda>e. inside ''Apple Books Highlights'' (fst e))
         (files vault_after_scenario)) = 1
   \<and> filter (\<lambda>e. \<not> at_or_inside ''Apple Books Highlights'' (fst e)) (files vault_after_scenario)
       = [(''Inbox.md'', ''keep'')]"
proof -
  let ?h = host_with_one_book
  let ?w' = "snd (syncHighlights ?h default_settings world_with_notes)"
  let ?F = "''Apple Books Highlights''"
  have run: "syncHighlights ?h default_settings world_with_notes = (Finished, ?w')"
    using scenario_outcome [of world_with_notes]
    by (cases "syncHighlights ?h default_settings world_with_notes") simp
  have q1: "exec ?h (sqlite_command
                (path_join ?h (ANNOTATION_DB_FOLDER_ABSOLUTE_PATH ?h) ''library.sqlite'')
                annotationDataSelectQuery) =
              Some ''B1|||A1|||Great quote@@@B1|||A2|||Another line@@@''"
    by (simp only: scenario_annotation_path scenario_annotation_command_def [symmetric]
        scenario_first_query)
  have g: "annotationData (parse_rows ''B1|||A1|||Great quote@@@B1|||A2|||Another line@@@'') =
             Inr [(''B1'', scenario_highlights)]"
    by (simp only: scenario_annotation_output scenario_grouped)
  have q2: "exec ?h (sqlite_command
                (path_join ?h (BOOKS_DB_FOLDER_ABSOLUTE_PATH ?h) ''library.sqlite'')
                (booksDataSelectQuery [(''B1'', scenario_highlights)])) =
              Some ''B1|||Jane Doe|||My Book@@@''"
    by (simp only: scenario_books_path scenario_second_query)
  have books: "[(''B1'', scenario_book)] =
                 entries (finalData [(''B1'', scenario_highlights)]
                            (parse_rows ''B1|||Jane Doe|||My Book@@@''))"
    by (simp only: scenario_catalog_output scenario_finalData scenario_entries)
  have f: "?F = highlightsFolder default_settings"
    by (simp add: default_settings_def)
  have v': "vault ?w' = vault_after_scenario" by (rule scenario_result)
  note r = destination_replaced [OF run scenario_files scenario_files q1 g q2 books f]
  note t1 = r [THEN conjunct2]
  note t2 = t1 [THEN conjunct2]
  note r3 = t2 [THEN conjunct1] and t3 = t2 [THEN conjunct2]
  note t4 = t3 [THEN conjunct2]
  note r5 = t4 [THEN conjunct1] and t5 = t4 [THEN conjunct2]
  note t6 = t5 [THEN conjunct2]
  note t7 = t6 [THEN conjunct2]
  note r8 = t7 [THEN conjunct1] and t8 = t7 [THEN conjunct2]
  note r10 = t8 [THEN conjunct2]
  from r3 have a: "?F \<in> set (folders vault_after_scenario)"
    by (simp only: v')
  from r5 have b: "{p \<in> fst ` set (files vault_after_scenario). inside ?F p} =
                     {''Apple Books Highlights/My Book.md''}"
    by (simp only: v') (simp add: scenario_path)
  have "distinct (map (\<lambda>e. to_string (bookTitle (snd e))) [(''B1'', scenario_book)])"
    by simp
  with r10 have "length (filter (\<lambda>e. inside ?F (fst e)) (files (vault ?w')))
                   = length [(''B1'', scenario_book)]"
    by (rule mp)
  then have c: "length (filter (\<lambda>e. inside ?F (fst e)) (files vault_after_scenario)) = 1"
    by (simp only: v') simp
  from r8 have "filter (\<lambda>e. \<not> at_or_inside ?F (fst e)) (files vault_after_scenario)
             = filter (\<lambda>e. \<not> at_or_inside ?F (fst e)) (files (vault world_with_notes))"
    by (simp only: v')
  then have d: "filter (\<lambda>e. \<not> at_or_inside ?F (fst e)) (files vault_after_scenario)
                  = [(''Inbox.md'', ''keep'')]"
    by (simp add: world_with_notes_def vault_with_notes_def at_or_inside_def inside_def)
  from scenario_outcome [of world_with_notes] a b c d show ?thesis by (intro conjI)
qed

end
